theory Spec2Isabelle
  imports Main "HOL-Library.Word" "HOL-Library.Signed_Division"
begin

section \<open>Hierarchical timing wheel (package timewheel)\<close>

text \<open>
  A shallow embedding of the Go package \<^verbatim>\<open>timewheel\<close>: the timer and bucket objects
  of \<^verbatim>\<open>bucket.go\<close> and the wheel levels of the \<^verbatim>\<open>TimeWheel\<close> source file.
  Go's \<^verbatim>\<open>int64\<close> is a 64-bit word read as two's complement: \<open>+\<close>, \<open>-\<close> and \<open>*\<close>
  wrap, comparisons are signed, \<^verbatim>\<open>/\<close> and \<^verbatim>\<open>%\<close> truncate toward zero.
  Pointers are addresses into explicit stores, so that the back-reference of a timer
  to its bucket and the membership list of the bucket can be compared.
\<close>

subsection \<open>Machine integers\<close>

type_synonym i64 = "64 word"

text \<open>Go's \<^verbatim>\<open>x / y\<close> and \<^verbatim>\<open>x % y\<close> on \<^verbatim>\<open>int64\<close>, for \<open>y \<noteq> 0\<close> (the caller
  checks the divisor, since Go panics on zero). The one overflowing quotient,
  the least value divided by \<open>-1\<close>, wraps as in Go.\<close>

definition quo :: "i64 \<Rightarrow> i64 \<Rightarrow> i64" where
  "quo x y = word_of_int (sint x sdiv sint y)"

definition rem :: "i64 \<Rightarrow> i64 \<Rightarrow> i64" where
  "rem x y = word_of_int (sint x smod sint y)"

subsection \<open>Objects and stores\<close>

type_synonym tid = nat \<comment> \<open>address of a timer\<close>
type_synonym bid = "nat \<times> nat" \<comment> \<open>address of a bucket: wheel level and slot\<close>
type_synonym eid = nat \<comment> \<open>address of an element of a \<^verbatim>\<open>container/list\<close> list\<close>

datatype error =
    TickTooSmall \<comment> \<open>the panic of \<^verbatim>\<open>New\<close>\<close>
  | MakeSliceLen \<comment> \<open>\<^verbatim>\<open>make\<close> with a length out of range\<close>
  | DivideByZero
  | IndexOutOfRange
  | NilDereference
  | Deadlock \<comment> \<open>\<^verbatim>\<open>Lock\<close> on a mutex that the running code already holds\<close>

text \<open>A timer. Its task is an opaque function and is not a field of the model;
  the state records which tasks have been started.\<close>

record timer =
  expiration :: i64
  bucket :: "bid option"
  element :: "eid option"

text \<open>The membership list of a bucket holds the elements in list order, each with
  its address and its \<^verbatim>\<open>Value\<close>, the timer. \<open>mu\<close> is true while the mutex is held.\<close>

record bucket_obj =
  bexpiration :: i64
  mu :: bool
  timers :: "(eid \<times> tid) list"

record TimeWheel =
  tick :: i64
  wheelSize :: i64
  interval :: i64
  currentTime :: i64
  buckets :: "bid list"

text \<open>
  The state of one engine. The wheels linked through \<^verbatim>\<open>overflowWheel\<close> are the list
  \<open>wheels\<close>, finest level first: the pointer of level \<open>k\<close> is nil exactly when \<open>k\<close> is
  the last index, and points to level \<open>k + 1\<close> otherwise (it is installed once and
  never replaced). \<open>spawned\<close> lists the timers whose task was started with
  \<^verbatim>\<open>go t.task()\<close>, in order. \<open>loops\<close> counts the goroutines started through the wait
  group and \<open>stopped\<close> says whether the stop channel is closed.
\<close>

text \<open>Modelled from the spec: the delay queue (\<^verbatim>\<open>DelayQueue\<close>, \<^verbatim>\<open>newQueue\<close>, \<^verbatim>\<open>Offer\<close>)
  is not among the sources. \<open>queue\<close> records the entries offered, each a bucket with
  the expiration it was offered under, in the order of the calls.\<close>

record state =
  timer_heap :: "tid \<Rightarrow> timer"
  bucket_heap :: "bid \<Rightarrow> bucket_obj"
  next_elem :: eid
  next_timer :: tid
  wheels :: "TimeWheel list"
  queue :: "(bid \<times> i64) list"
  spawned :: "tid list"
  loops :: nat
  stopped :: bool

subsection \<open>Timers and buckets (bucket.go)\<close>

definition newBucket :: bucket_obj where
  "newBucket = \<lparr>bexpiration = -1, mu = False, timers = []\<rparr>"

definition getBucket :: "state \<Rightarrow> tid \<Rightarrow> bid option" where
  "getBucket s t = bucket (timer_heap s t)"

definition setBucket :: "tid \<Rightarrow> bid option \<Rightarrow> state \<Rightarrow> state" where
  "setBucket t b s = s\<lparr>timer_heap := (timer_heap s)(t := (timer_heap s t)\<lparr>bucket := b\<rparr>)\<rparr>"

definition Expiration :: "state \<Rightarrow> bid \<Rightarrow> i64" where
  "Expiration s b = bexpiration (bucket_heap s b)"

text \<open>\<^verbatim>\<open>SetExpiration\<close>: swaps the stored value and reports whether the old one
  differs from the new one.\<close>

definition SetExpiration :: "bid \<Rightarrow> i64 \<Rightarrow> state \<Rightarrow> bool \<times> state" where
  "SetExpiration b e s =
     (bexpiration (bucket_heap s b) \<noteq> e,
      s\<lparr>bucket_heap := (bucket_heap s)(b := (bucket_heap s b)\<lparr>bexpiration := e\<rparr>)\<rparr>)"

definition Lock :: "bid \<Rightarrow> state \<Rightarrow> error + state" where
  "Lock b s =
     (if mu (bucket_heap s b) then Inl Deadlock
      else Inr (s\<lparr>bucket_heap := (bucket_heap s)(b := (bucket_heap s b)\<lparr>mu := True\<rparr>)\<rparr>))"

definition Unlock :: "bid \<Rightarrow> state \<Rightarrow> state" where
  "Unlock b s = s\<lparr>bucket_heap := (bucket_heap s)(b := (bucket_heap s b)\<lparr>mu := False\<rparr>)\<rparr>"

text \<open>\<^verbatim>\<open>list.PushBack\<close> allocates a new element at the back; \<^verbatim>\<open>list.Remove\<close> unlinks
  the element when it belongs to this list and does nothing otherwise.\<close>

definition PushBack :: "bid \<Rightarrow> tid \<Rightarrow> state \<Rightarrow> eid \<times> state" where
  "PushBack b t s =
     (next_elem s,
      s\<lparr>bucket_heap := (bucket_heap s)
           (b := (bucket_heap s b)\<lparr>timers := timers (bucket_heap s b) @ [(next_elem s, t)]\<rparr>),
        next_elem := Suc (next_elem s)\<rparr>)"

definition Remove :: "bid \<Rightarrow> eid \<Rightarrow> state \<Rightarrow> state" where
  "Remove b e s =
     s\<lparr>bucket_heap := (bucket_heap s)
          (b := (bucket_heap s b)\<lparr>timers := filter (\<lambda>x. fst x \<noteq> e) (timers (bucket_heap s b))\<rparr>)\<rparr>"

text \<open>\<^verbatim>\<open>bucket.remove\<close>: no lock is taken here; the callers hold it or do without.\<close>

definition remove_timer :: "bid \<Rightarrow> tid \<Rightarrow> state \<Rightarrow> error + bool \<times> state" where
  "remove_timer b t s =
     (if getBucket s t \<noteq> Some b then Inr (False, s)
      else case element (timer_heap s t) of
             None \<Rightarrow> Inl NilDereference
           | Some e \<Rightarrow>
               (let s1 = Remove b e s;
                    s2 = setBucket t None s1;
                    s3 = s2\<lparr>timer_heap := (timer_heap s2)(t := (timer_heap s2 t)\<lparr>element := None\<rparr>)\<rparr>
                in Inr (True, s3)))"

text \<open>\<^verbatim>\<open>bucket.Add\<close>: under the lock, links the timer and sets both of its references.\<close>

definition Add :: "bid \<Rightarrow> tid \<Rightarrow> state \<Rightarrow> error + state" where
  "Add b t s =
     (case Lock b s of
        Inl err \<Rightarrow> Inl err
      | Inr s1 \<Rightarrow>
          (let (elem, s2) = PushBack b t s1;
               s3 = s2\<lparr>timer_heap := (timer_heap s2)(t := (timer_heap s2 t)\<lparr>element := Some elem\<rparr>)\<rparr>;
               s4 = setBucket t (Some b) s3
           in Inr (Unlock b s4)))"

text \<open>\<^verbatim>\<open>timer.Stop\<close>: the loop runs while the timer has a bucket; the result is that of
  the last \<^verbatim>\<open>remove\<close>, false when the loop never ran.\<close>

function Stop_loop :: "bool \<Rightarrow> tid \<Rightarrow> state \<Rightarrow> error + bool \<times> state" where
  "Stop_loop stopped_r t s =
     (case getBucket s t of
        None \<Rightarrow> Inr (stopped_r, s)
      | Some b \<Rightarrow>
          (case remove_timer b t s of
             Inl err \<Rightarrow> Inl err
           | Inr (r, s') \<Rightarrow> Stop_loop r t s'))"
  by pat_completeness auto
termination
proof (relation "measure (\<lambda>(r, t, s). if getBucket s t = None then 0 else 1)")
  show "wf (measure (\<lambda>(r, t, s). if getBucket s t = None then 0 else (1::nat)))"
    by simp
next
  fix stopped_r :: bool and t s b x r s'
  assume "getBucket s t = Some b" and "remove_timer b t s = Inr x" and "(r, s') = x"
  then have "getBucket s' t = None"
    by (auto simp: remove_timer_def getBucket_def setBucket_def Remove_def Let_def
        split: option.splits if_splits)
  then show "((r, t, s'), (stopped_r, t, s))
      \<in> measure (\<lambda>(r, t, s). if getBucket s t = None then 0 else 1)"
    using \<open>getBucket s t = Some b\<close> by simp
qed

definition Stop :: "tid \<Rightarrow> state \<Rightarrow> error + bool \<times> state" where
  "Stop t s = Stop_loop False t s"

text \<open>
  \<^verbatim>\<open>bucket.Flush\<close>. A callback is a state transformer that may panic or run forever,
  so the loop is a partial function: \<open>None\<close> is a run that does not return. The loop
  variable is an element of the list (its address and its \<^verbatim>\<open>Value\<close>); \<^verbatim>\<open>e.Next()\<close> is
  read before the element is unlinked, and is nil for an element that is no longer
  in the list.
\<close>

fun successor :: "(eid \<times> tid) list \<Rightarrow> eid \<Rightarrow> (eid \<times> tid) option" where
  "successor [] e = None"
| "successor (x # xs) e =
     (if fst x = e then (case xs of [] \<Rightarrow> None | y # ys \<Rightarrow> Some y) else successor xs e)"

definition Front :: "bid \<Rightarrow> state \<Rightarrow> (eid \<times> tid) option" where
  "Front b s = (case timers (bucket_heap s b) of [] \<Rightarrow> None | x # xs \<Rightarrow> Some x)"

definition Next :: "bid \<Rightarrow> eid \<Rightarrow> state \<Rightarrow> (eid \<times> tid) option" where
  "Next b e s = successor (timers (bucket_heap s b)) e"

type_synonym callback = "tid \<Rightarrow> state \<Rightarrow> (error + state) option"

partial_function (option) Flush_loop ::
  "callback \<Rightarrow> bid \<Rightarrow> (eid \<times> tid) option \<Rightarrow> state \<Rightarrow> (error + state) option" where
  "Flush_loop reinsert b e s =
     (case e of
        None \<Rightarrow> Some (Inr s)
      | Some (a, t) \<Rightarrow>
          (let next = Next b a s in
           case remove_timer b t s of
             Inl err \<Rightarrow> Some (Inl err)
           | Inr (r, s1) \<Rightarrow>
               (case reinsert t s1 of
                  None \<Rightarrow> None
                | Some (Inl err) \<Rightarrow> Some (Inl err)
                | Some (Inr s2) \<Rightarrow> Flush_loop reinsert b next s2)))"

declare Flush_loop.simps [code]

definition Flush :: "callback \<Rightarrow> bid \<Rightarrow> state \<Rightarrow> (error + state) option" where
  "Flush reinsert b s =
     (case Lock b s of
        Inl err \<Rightarrow> Some (Inl err)
      | Inr s1 \<Rightarrow>
          (case Flush_loop reinsert b (Front b s1) s1 of
             None \<Rightarrow> None
           | Some (Inl err) \<Rightarrow> Some (Inl err)
           | Some (Inr s2) \<Rightarrow> Some (Inr (Unlock b (snd (SetExpiration b (- 1) s2))))))"

subsection \<open>Wheel levels\<close>

text \<open>\<^verbatim>\<open>truncate\<close>: rounds \<open>x\<close> toward zero to a multiple of \<open>m\<close>; \<open>x\<close> unchanged
  when \<open>m \<le> 0\<close>.\<close>

definition truncate :: "i64 \<Rightarrow> i64 \<Rightarrow> i64" where
  "truncate x m = (if m \<le>s 0 then x else x - rem x m)"

text \<open>Modelled from the spec: \<^verbatim>\<open>Offer\<close> of the delay queue, which is not among the
  sources: the entry is inserted under the given expiration.\<close>

definition Offer :: "bid \<Rightarrow> i64 \<Rightarrow> state \<Rightarrow> state" where
  "Offer b e s = s\<lparr>queue := queue s @ [(b, e)]\<rparr>"

text \<open>
  \<^verbatim>\<open>make([]*bucket, n)\<close> panics with \<^verbatim>\<open>len out of range\<close> when \<open>n\<close> is negative or
  the slice does not fit the address space of the heap: the runtime compares the
  size of the slice, \<open>n\<close> pointers, with \<^verbatim>\<open>maxAlloc\<close>. The two constants are those of
  the 64-bit platforms, pointers of 8 bytes and a heap of \<open>2\<^sup>4\<^sup>8\<close> bytes. Exhaustion
  of memory, which ends the program at any allocation, is outside the model.
\<close>

definition ptrSize :: int where
  "ptrSize = 8"

definition maxAlloc :: int where
  "maxAlloc = 2 ^ 48"

definition makeslice_panics :: "i64 \<Rightarrow> bool" where
  "makeslice_panics n \<longleftrightarrow> sint n < 0 \<or> maxAlloc < ptrSize * sint n"

text \<open>\<^verbatim>\<open>newTimeWheel\<close> allocates the buckets of a new level and returns the level. The
  new level gets the next free level number, and its buckets the addresses under it.\<close>

definition newTimeWheel :: "i64 \<Rightarrow> i64 \<Rightarrow> i64 \<Rightarrow> state \<Rightarrow> error + TimeWheel \<times> state" where
  "newTimeWheel tickMs wsize startMs s =
     (if makeslice_panics wsize then Inl MakeSliceLen
      else
        (let k = length (wheels s);
             n = nat (sint wsize);
             tw = \<lparr>tick = tickMs, wheelSize = wsize, interval = tickMs * wsize,
                   currentTime = truncate startMs tickMs,
                   buckets = map (Pair k) [0..<n]\<rparr>
         in Inr (tw, s\<lparr>bucket_heap :=
                         (\<lambda>b. if fst b = k \<and> snd b < n then newBucket else bucket_heap s b)\<rparr>)))"

definition no_timer :: timer where
  "no_timer = \<lparr>expiration = 0, bucket = None, element = None\<rparr>"

definition init_state :: state where
  "init_state =
     \<lparr>timer_heap = (\<lambda>t. no_timer), bucket_heap = (\<lambda>b. newBucket), next_elem = 0,
      next_timer = 0, wheels = [], queue = [], spawned = [], loops = 0, stopped = False\<rparr>"

text \<open>\<^verbatim>\<open>New\<close>: \<open>tick_d\<close> is the \<^verbatim>\<open>time.Duration\<close>, in nanoseconds, and \<open>now\<close> the value
  of \<^verbatim>\<open>time.Now().UnixMilli()\<close>. The queue of the new engine is empty.\<close>

definition New :: "i64 \<Rightarrow> i64 \<Rightarrow> i64 \<Rightarrow> error + state" where
  "New tick_d wsize now =
     (let tickMs = quo tick_d 1000000 in
      if tickMs \<le>s 0 then Inl TickTooSmall
      else case newTimeWheel tickMs wsize now init_state of
             Inl err \<Rightarrow> Inl err
           | Inr (tw, s) \<Rightarrow> Inr (s\<lparr>wheels := [tw]\<rparr>))"

text \<open>\<^verbatim>\<open>advanceClock\<close>, on a level and the chain of its overflow levels.\<close>

fun advanceClock :: "TimeWheel list \<Rightarrow> i64 \<Rightarrow> TimeWheel list" where
  "advanceClock [] e = []"
| "advanceClock (tw # overflowWheel) e =
     (if currentTime tw + tick tw \<le>s e
      then (let c = truncate e (tick tw)
            in tw\<lparr>currentTime := c\<rparr> # advanceClock overflowWheel c)
      else tw # overflowWheel)"

text \<open>\<^verbatim>\<open>add\<close> at level \<open>k\<close>. A run that never returns is \<open>None\<close>.\<close>

partial_function (option) add :: "nat \<Rightarrow> tid \<Rightarrow> state \<Rightarrow> (error + bool \<times> state) option" where
  "add k t s =
     (if length (wheels s) \<le> k then Some (Inl NilDereference)
      else
        (let tw = wheels s ! k;
             c = currentTime tw;
             e = expiration (timer_heap s t)
         in if e <s c + tick tw then Some (Inr (False, s))
            else if e <s c + interval tw then
              (if tick tw = 0 then Some (Inl DivideByZero)
               else
                 (let virtualID = quo e (tick tw)
                  in if wheelSize tw = 0 then Some (Inl DivideByZero)
                     else
                       (let i = rem virtualID (wheelSize tw)
                        in if i <s 0 \<or> length (buckets tw) \<le> nat (sint i)
                           then Some (Inl IndexOutOfRange)
                           else
                             (let b = buckets tw ! nat (sint i)
                              in case Add b t s of
                                   Inl err \<Rightarrow> Some (Inl err)
                                 | Inr s1 \<Rightarrow>
                                     (let (changed, s2) = SetExpiration b (virtualID * tick tw) s1
                                      in Some (Inr (True,
                                           if changed then Offer b (Expiration s2 b) s2
                                           else s2)))))))
            else if Suc k < length (wheels s) then add (Suc k) t s
            else
              (case newTimeWheel (interval tw) (wheelSize tw) c s of
                 Inl err \<Rightarrow> Some (Inl err)
               | Inr (ow, s1) \<Rightarrow> add (Suc k) t (s1\<lparr>wheels := wheels s1 @ [ow]\<rparr>))))"

declare add.simps [code]

definition addOrRun :: "nat \<Rightarrow> tid \<Rightarrow> state \<Rightarrow> (error + state) option" where
  "addOrRun k t s =
     (case add k t s of
        None \<Rightarrow> None
      | Some (Inl err) \<Rightarrow> Some (Inl err)
      | Some (Inr (placed, s1)) \<Rightarrow>
          Some (Inr (if placed then s1 else s1\<lparr>spawned := spawned s1 @ [t]\<rparr>)))"

text \<open>\<^verbatim>\<open>AfterFunc\<close>: \<open>e\<close> is the value of \<^verbatim>\<open>time.Now().Add(d).UnixMilli()\<close>. The new
  timer gets the next free address, which is returned with the state.\<close>

definition newTimer :: "i64 \<Rightarrow> state \<Rightarrow> tid \<times> state" where
  "newTimer e s =
     (next_timer s,
      s\<lparr>timer_heap := (timer_heap s)
           (next_timer s := \<lparr>expiration = e, bucket = None, element = None\<rparr>),
        next_timer := Suc (next_timer s)\<rparr>)"

definition AfterFunc :: "i64 \<Rightarrow> state \<Rightarrow> (error + tid \<times> state) option" where
  "AfterFunc e s =
     (let (t, s1) = newTimer e s
      in case addOrRun 0 t s1 of
           None \<Rightarrow> None
         | Some (Inl err) \<Rightarrow> Some (Inl err)
         | Some (Inr s2) \<Rightarrow> Some (Inr (t, s2)))"

text \<open>\<^verbatim>\<open>Start\<close> launches the poll loop and the dispatch loop through the wait group.
  One turn of the dispatch loop, on a bucket received from the queue, advances the
  clock of the base level and flushes the bucket through \<^verbatim>\<open>addOrRun\<close>.\<close>

definition Start :: "state \<Rightarrow> state" where
  "Start s = s\<lparr>loops := loops s + 2\<rparr>"

text \<open>\<^verbatim>\<open>advanceClock\<close> called on the wheel of level \<open>k\<close>: the levels below \<open>k\<close> are
  out of its reach, as a wheel has no pointer to a finer one.\<close>

definition advanceClock_at :: "nat \<Rightarrow> i64 \<Rightarrow> state \<Rightarrow> state" where
  "advanceClock_at k e s =
     s\<lparr>wheels := take k (wheels s) @ advanceClock (drop k (wheels s)) e\<rparr>"

definition dispatch :: "bid \<Rightarrow> state \<Rightarrow> (error + state) option" where
  "dispatch b s = Flush (addOrRun 0) b (advanceClock_at 0 (bexpiration (bucket_heap s b)) s)"

subsection \<open>Invariants\<close>

text \<open>The invariant of the data model: a timer refers back to a bucket exactly when
  it is the \<^verbatim>\<open>Value\<close> of an element of that bucket's list.\<close>

definition back_refs :: "state \<Rightarrow> bool" where
  "back_refs s \<longleftrightarrow>
     (\<forall>t b. getBucket s t = Some b \<longleftrightarrow> t \<in> snd ` set (timers (bucket_heap s b)))"

text \<open>What the list library and the allocator give: the \<^verbatim>\<open>element\<close> field of a linked
  timer is the element that holds it, elements in use are allocated, and an element
  occurs once in a list.\<close>

definition elements_ok :: "state \<Rightarrow> bool" where
  "elements_ok s \<longleftrightarrow>
     (\<forall>b e t. (e, t) \<in> set (timers (bucket_heap s b)) \<longrightarrow>
        element (timer_heap s t) = Some e \<and> e < next_elem s)
     \<and> (\<forall>b. distinct (map fst (timers (bucket_heap s b))))"

definition linked :: "state \<Rightarrow> bool" where
  "linked s \<longleftrightarrow> back_refs s \<and> elements_ok s"

text \<open>What the allocator gives: a bucket of a level that does not exist yet is as
  \<^verbatim>\<open>newBucket\<close> will make it, and the bucket arrays of the levels hold buckets of
  levels that exist.\<close>

definition alloc_ok :: "state \<Rightarrow> bool" where
  "alloc_ok s \<longleftrightarrow>
     (\<forall>b. length (wheels s) \<le> fst b \<longrightarrow> bucket_heap s b = newBucket)
     \<and> (\<forall>tw \<in> set (wheels s). \<forall>b \<in> set (buckets tw). fst b < length (wheels s))"

text \<open>
  What \<^verbatim>\<open>Flush\<close> on bucket \<open>b\<close> needs of its callback. The callback is called on a
  timer that has just been unlinked, while \<open>b\<close> is locked. If it returns, the
  invariants hold again and the object of \<open>b\<close> is as before: the callback has not
  touched the list it is iterated from.
\<close>

definition callback_ok :: "callback \<Rightarrow> bid \<Rightarrow> bool" where
  "callback_ok f b \<longleftrightarrow>
     (\<forall>t s s'. linked s \<and> alloc_ok s \<and> getBucket s t = None \<and> mu (bucket_heap s b)
          \<and> f t s = Some (Inr s')
        \<longrightarrow> linked s' \<and> alloc_ok s' \<and> bucket_heap s' b = bucket_heap s b)"

text \<open>The loop of \<^verbatim>\<open>Flush\<close> over the list as it stands: each timer in turn is
  unlinked and handed to the callback, before the next one is unlinked.\<close>

fun flush_each :: "callback \<Rightarrow> bid \<Rightarrow> (eid \<times> tid) list \<Rightarrow> state \<Rightarrow> (error + state) option" where
  "flush_each f b [] s = Some (Inr s)"
| "flush_each f b (x # xs) s =
     (case remove_timer b (snd x) s of
        Inl err \<Rightarrow> Some (Inl err)
      | Inr (r, s1) \<Rightarrow>
          (case f (snd x) s1 of
             None \<Rightarrow> None
           | Some (Inl err) \<Rightarrow> Some (Inl err)
           | Some (Inr s2) \<Rightarrow> flush_each f b xs s2))"

subsection \<open>The flush of the specification\<close>

text \<open>
  The specification words \<^verbatim>\<open>flush\<close> differently from the code: the whole list is
  drained under the lock, the callbacks run afterwards, outside the lock, on the
  drained timers, and the expiration is cleared last. This second definition
  follows those words, to be compared with \<open>Flush\<close>.
\<close>

fun drain :: "bid \<Rightarrow> tid list \<Rightarrow> state \<Rightarrow> error + state" where
  "drain b [] s = Inr s"
| "drain b (t # ts) s =
     (case remove_timer b t s of Inl err \<Rightarrow> Inl err | Inr (r, s1) \<Rightarrow> drain b ts s1)"

fun call_each :: "callback \<Rightarrow> tid list \<Rightarrow> state \<Rightarrow> (error + state) option" where
  "call_each f [] s = Some (Inr s)"
| "call_each f (t # ts) s =
     (case f t s of
        None \<Rightarrow> None
      | Some (Inl err) \<Rightarrow> Some (Inl err)
      | Some (Inr s1) \<Rightarrow> call_each f ts s1)"

definition Flush_drain_first :: "callback \<Rightarrow> bid \<Rightarrow> state \<Rightarrow> (error + state) option" where
  "Flush_drain_first reinsert b s =
     (case Lock b s of
        Inl err \<Rightarrow> Some (Inl err)
      | Inr s1 \<Rightarrow>
          (let ts = map snd (timers (bucket_heap s1 b))
           in case drain b ts s1 of
                Inl err \<Rightarrow> Some (Inl err)
              | Inr s2 \<Rightarrow>
                  (case call_each reinsert ts (Unlock b s2) of
                     None \<Rightarrow> None
                   | Some (Inl err) \<Rightarrow> Some (Inl err)
                   | Some (Inr s3) \<Rightarrow> Some (Inr (snd (SetExpiration b (- 1) s3))))))"

text \<open>
  What construction gives a level and every later step keeps: a positive tick and slot
  count, the interval their product, a current time that is not negative, all within
  the range of \<^verbatim>\<open>int64\<close>, and one bucket for each slot, in a slice that \<^verbatim>\<open>make\<close>
  has allocated.
\<close>

definition level_ok :: "TimeWheel \<Rightarrow> bool" where
  "level_ok tw \<longleftrightarrow>
     0 < sint (tick tw) \<and> 0 < sint (wheelSize tw)
     \<and> sint (interval tw) = sint (tick tw) * sint (wheelSize tw)
     \<and> 0 \<le> sint (currentTime tw)
     \<and> sint (currentTime tw) + sint (interval tw) < 2 ^ 63
     \<and> length (buckets tw) = nat (sint (wheelSize tw))
     \<and> \<not> makeslice_panics (wheelSize tw)"

text \<open>A level with the chain of its overflow levels: the tick of an overflow level
  is the interval of the level below, the slot count is the same, and its clock is
  not ahead of the clock below.\<close>

fun chain_ok :: "TimeWheel list \<Rightarrow> bool" where
  "chain_ok [] = True"
| "chain_ok [tw] = level_ok tw"
| "chain_ok (tw # ow # rest) =
     (level_ok tw \<and> tick ow = interval tw \<and> wheelSize ow = wheelSize tw
      \<and> currentTime ow \<le>s currentTime tw \<and> chain_ok (ow # rest))"

definition unlocked :: "state \<Rightarrow> bool" where
  "unlocked s \<longleftrightarrow> (\<forall>b. \<not> mu (bucket_heap s b))"

text \<open>A last level whose tick and interval are both zero, and whose clock is not
  ahead of the expiration, creates an overflow level of the same kind and
  delegates to it: the recursion never returns.\<close>

definition stuck :: "nat \<Rightarrow> tid \<Rightarrow> state \<Rightarrow> bool" where
  "stuck k t s \<longleftrightarrow>
     Suc k = length (wheels s) \<and> tick (wheels s ! k) = 0 \<and> interval (wheels s ! k) = 0
     \<and> \<not> makeslice_panics (wheelSize (wheels s ! k))
     \<and> \<not> expiration (timer_heap s t) <s currentTime (wheels s ! k)"

subsection \<open>Example data\<close>

definition w5 :: TimeWheel where
  "w5 = \<lparr>tick = 5, wheelSize = 12, interval = 60, currentTime = 1000,
          buckets = map (Pair 0) [0..<12]\<rparr>"

definition w60 :: TimeWheel where
  "w60 = \<lparr>tick = 60, wheelSize = 12, interval = 720, currentTime = 960, buckets = []\<rparr>"

text \<open>The engine of \<^verbatim>\<open>New(5*time.Millisecond, 12)\<close> at time 1000, with one timer,
  not yet scheduled, that expires at \<open>e\<close>.\<close>

definition ex_state :: "i64 \<Rightarrow> state" where
  "ex_state e =
     init_state\<lparr>wheels := [w5],
                timer_heap := (timer_heap init_state)
                  (0 := \<lparr>expiration = e, bucket = None, element = None\<rparr>),
                next_timer := 1\<rparr>"

text \<open>The engine of \<^verbatim>\<open>New(time.Millisecond, 2097152)\<close> at time 1790000000000.\<close>

definition wide_state :: state where
  "wide_state =
     init_state\<lparr>wheels :=
       [\<lparr>tick = 1, wheelSize = 2097152, interval = 2097152, currentTime = 1790000000000,
         buckets = map (Pair 0) [0..<nat (sint (2097152 :: i64))]\<rparr>]\<rparr>"

text \<open>Two callbacks: one starts the task of the timer when it finds the bucket
  still holding timers, and does nothing otherwise; the other adds the timer to
  the bucket again.\<close>

definition probe :: "bid \<Rightarrow> callback" where
  "probe b t s =
     Some (Inr (if timers (bucket_heap s b) = [] then s else s\<lparr>spawned := spawned s @ [t]\<rparr>))"

definition readd :: "bid \<Rightarrow> callback" where
  "readd b t s = Some (Add b t s)"

text \<open>The example engine with one more timer and both timers, expiring at 1012 and
  1013, added to the bucket of slot 10.\<close>

definition two_timers :: state where
  "two_timers =
     (case Add (0, 10) 0 (ex_state 1012) of
        Inr s1 \<Rightarrow>
          (case Add (0, 10) 1
                  (s1\<lparr>timer_heap := (timer_heap s1)
                         (1 := \<lparr>expiration = 1013, bucket = None, element = None\<rparr>),
                       next_timer := 2\<rparr>) of
             Inr s2 \<Rightarrow> snd (SetExpiration (0, 10) 1010 s2)
           | Inl err \<Rightarrow> init_state)
      | Inl err \<Rightarrow> init_state)"

text \<open>The engine of \<^verbatim>\<open>New(341101*time.Millisecond, 5200000)\<close> at time
  1790000000000.\<close>

definition long_state :: state where
  "long_state =
     init_state\<lparr>wheels :=
       [\<lparr>tick = 341101, wheelSize = 5200000, interval = 1773725200000,
         currentTime = 1789999810912,
         buckets = map (Pair 0) [0..<nat (sint (5200000 :: i64))]\<rparr>]\<rparr>"

text \<open>The same engine with a timer that expires at 3588783200000, and with the
  overflow level that \<^verbatim>\<open>add\<close> creates for this timer.\<close>

definition long_overflow :: state where
  "long_overflow =
     (snd (newTimer 3588783200000 long_state))\<lparr>wheels := wheels long_state @
       [\<lparr>tick = 1773725200000, wheelSize = 5200000, interval = 9223371040000000000,
         currentTime = 1773725200000,
         buckets = map (Pair 1) [0..<nat (sint (5200000 :: i64))]\<rparr>]\<rparr>"

section \<open>Arithmetic of 64-bit signed integers\<close>

lemma sint_in: "- (2 ^ 63) \<le> sint (x::i64) \<and> sint x < 2 ^ 63"
  using sint_ge [of x] sint_lt [of x] by simp

lemma sint_wi: "- (2 ^ 63) \<le> i \<Longrightarrow> i < 2 ^ 63 \<Longrightarrow> sint (word_of_int i :: i64) = i"
  by (simp add: sint_sbintrunc' signed_take_bit_int_eq_self)

lemma sint_add_ok:
  "- (2 ^ 63) \<le> sint (a::i64) + sint b \<Longrightarrow> sint a + sint b < 2 ^ 63 \<Longrightarrow> sint (a + b) = sint a + sint b"
  by (simp add: sint_word_ariths signed_take_bit_int_eq_self)

lemma sint_sub_ok:
  "- (2 ^ 63) \<le> sint (a::i64) - sint b \<Longrightarrow> sint a - sint b < 2 ^ 63 \<Longrightarrow> sint (a - b) = sint a - sint b"
  by (simp add: sint_word_ariths signed_take_bit_int_eq_self)

lemma sint_mul_ok:
  "- (2 ^ 63) \<le> sint (a::i64) * sint b \<Longrightarrow> sint a * sint b < 2 ^ 63 \<Longrightarrow> sint (a * b) = sint a * sint b"
  by (simp add: sint_word_ariths signed_take_bit_int_eq_self)

lemma sdiv_nonneg: "0 \<le> (a::int) \<Longrightarrow> 0 < b \<Longrightarrow> a sdiv b = a div b"
  by (simp add: signed_divide_int_def sgn_if)

lemma smod_nonneg: "0 \<le> (a::int) \<Longrightarrow> 0 < b \<Longrightarrow> a smod b = a mod b"
  by (simp add: signed_modulo_int_def sgn_if)

lemma sint_rem_pos:
  assumes "0 \<le> sint x" "0 < sint m"
  shows "sint (rem x m) = sint x mod sint m"
proof -
  have "0 \<le> sint x mod sint m" "sint x mod sint m < sint m"
    using assms by simp_all
  with sint_in [of m] have "sint (word_of_int (sint x mod sint m) :: i64) = sint x mod sint m"
    by (intro sint_wi) linarith+
  then show ?thesis
    using assms by (simp add: rem_def smod_nonneg)
qed

lemma sint_quo_pos:
  assumes "0 \<le> sint x" "0 < sint m"
  shows "sint (quo x m) = sint x div sint m"
proof -
  have "0 \<le> sint x div sint m" using assms by (simp add: pos_imp_zdiv_nonneg_iff)
  moreover have "sint x div sint m \<le> sint x" using assms
    by (cases "sint x = 0") (simp_all add: int_div_le_self)
  ultimately have "sint (word_of_int (sint x div sint m) :: i64) = sint x div sint m"
    using sint_in [of x] by (intro sint_wi) linarith+
  then show ?thesis
    using assms by (simp add: quo_def sdiv_nonneg)
qed

lemma sint_truncate_pos:
  assumes "0 \<le> sint x" "0 < sint m"
  shows "sint (truncate x m) = sint x - sint x mod sint m"
proof -
  have r: "sint (rem x m) = sint x mod sint m" using assms by (rule sint_rem_pos)
  have "0 \<le> sint x mod sint m" "sint x mod sint m \<le> sint x"
    using assms by (simp_all add: zmod_le_nonneg_dividend)
  then have "sint (x - rem x m) = sint x - sint (rem x m)"
    using sint_in [of x] by (intro sint_sub_ok; simp add: r; linarith)
  then show ?thesis using assms by (simp add: truncate_def word_sle_eq r)
qed

lemma sint_rem:
  assumes "0 < sint m"
  shows "sint (rem x m) = sint x smod sint m"
proof -
  have "\<bar>sint x smod sint m\<bar> < sint m"
    using assms by (simp add: signed_modulo_int_def abs_mult abs_sgn_eq)
  with sint_in [of m] have "sint (word_of_int (sint x smod sint m) :: i64) = sint x smod sint m"
    by (intro sint_wi) linarith+
  then show ?thesis by (simp add: rem_def)
qed

lemma smod_bounds:
  assumes "0 < (m::int)"
  shows "0 \<le> x \<Longrightarrow> 0 \<le> x smod m \<and> x smod m \<le> x"
    and "x \<le> 0 \<Longrightarrow> x \<le> x smod m \<and> x smod m \<le> 0"
proof -
  show "0 \<le> x \<Longrightarrow> 0 \<le> x smod m \<and> x smod m \<le> x"
    using assms by (simp add: smod_nonneg zmod_le_nonneg_dividend)
  show "x \<le> 0 \<Longrightarrow> x \<le> x smod m \<and> x smod m \<le> 0"
  proof -
    assume "x \<le> 0"
    then have "x smod m = - ((- x) mod m)"
      using assms by (cases "x = 0") (simp_all add: signed_modulo_int_def sgn_if)
    moreover have "0 \<le> (- x) mod m" "(- x) mod m \<le> - x"
      using assms \<open>x \<le> 0\<close> by (simp_all add: zmod_le_nonneg_dividend)
    ultimately show ?thesis by linarith
  qed
qed

lemma sint_truncate:
  assumes "0 < sint m"
  shows "sint (truncate x m) = sint x - sint x smod sint m"
proof -
  have r: "sint (rem x m) = sint x smod sint m" using assms by (rule sint_rem)
  have "sint (x - rem x m) = sint x - sint (rem x m)"
  proof (cases "0 \<le> sint x")
    case True
    then show ?thesis using smod_bounds(1) [OF assms, of "sint x"] sint_in [of x]
      by (intro sint_sub_ok; simp add: r; linarith)
  next
    case False
    then show ?thesis using smod_bounds(2) [OF assms, of "sint x"] sint_in [of x]
      by (intro sint_sub_ok; simp add: r; linarith)
  qed
  then show ?thesis using assms by (simp add: truncate_def word_sle_eq r)
qed

lemma sint_truncate_mult:
  assumes "0 < sint m"
  shows "sint (truncate x m) = (sint x sdiv sint m) * sint m"
  using sint_truncate [OF assms, of x] by (simp add: minus_smod_eq_sdiv_mult)

lemma truncate_le:
  assumes "0 < sint m" "0 \<le> sint x"
  shows "0 \<le> sint (truncate x m) \<and> sint (truncate x m) \<le> sint x"
  using sint_truncate [OF assms(1), of x] smod_bounds(1) [OF assms(1), of "sint x"] assms(2) by linarith

lemma quo_ms: "sint (quo x 1000000) = sint x sdiv 1000000"
proof -
  have "\<bar>sint x sdiv 1000000\<bar> = \<bar>sint x\<bar> div 1000000"
    by (cases "sint x = 0") (simp_all add: signed_divide_int_def abs_mult abs_sgn_eq)
  moreover have "\<bar>sint x\<bar> div 1000000 \<le> 2 ^ 63 div 1000000"
    using sint_in [of x] by (intro zdiv_mono1) auto
  ultimately have "\<bar>sint x sdiv 1000000\<bar> < 2 ^ 63" by simp
  then have "sint (word_of_int (sint x sdiv 1000000) :: i64) = sint x sdiv 1000000"
    by (intro sint_wi) linarith+
  then show ?thesis by (simp add: quo_def)
qed

lemma quo_ms_le0: "quo x 1000000 \<le>s 0 \<longleftrightarrow> x <s 1000000"
proof -
  have "sint x sdiv 1000000 \<le> 0 \<longleftrightarrow> sint x < 1000000"
    by (auto simp add: signed_divide_int_def sgn_if div_int_pos_iff not_less
        dest: pos_imp_zdiv_pos_iff [THEN iffD1, rotated]) 
  then show ?thesis by (simp add: word_sle_eq word_sless_alt quo_ms)
qed

lemma smod_zero_iff:
  assumes "0 < (m::int)"
  shows "x smod m = 0 \<longleftrightarrow> m dvd x"
proof -
  have "x smod m = sgn x * (\<bar>x\<bar> mod m)"
    using assms by (simp add: signed_modulo_int_def)
  then have "x smod m = 0 \<longleftrightarrow> x = 0 \<or> \<bar>x\<bar> mod m = 0" by (simp add: sgn_if)
  also have "\<dots> \<longleftrightarrow> m dvd \<bar>x\<bar>" by (auto simp add: dvd_eq_mod_eq_0)
  finally show ?thesis by simp
qed

lemma truncate_fixed_iff:
  assumes "0 < sint m"
  shows "truncate x m = x \<longleftrightarrow> sint m dvd sint x"
proof -
  have "truncate x m = x \<longleftrightarrow> sint (truncate x m) = sint x"
    by (auto intro: signed_word_eqI)
  also have "\<dots> \<longleftrightarrow> sint x smod sint m = 0"
    using sint_truncate [OF assms, of x] by auto
  also have "\<dots> \<longleftrightarrow> sint m dvd sint x" using assms by (rule smod_zero_iff)
  finally show ?thesis .
qed

lemma truncate_ge:
  assumes "0 < sint m" "sint x \<le> 0"
  shows "sint x \<le> sint (truncate x m) \<and> sint (truncate x m) \<le> 0"
  using sint_truncate [OF assms(1), of x] smod_bounds(2) [OF assms(1), of "sint x"] assms(2)
  by linarith

section \<open>Bucket expiration\<close>

text \<open>
  C7. \<^verbatim>\<open>SetExpiration(e)\<close> stores \<open>e\<close> as the expiration of the bucket and returns
  true exactly when the value stored before differs from \<open>e\<close>; the same call made
  again at once returns false. No other bucket is touched.
\<close>

theorem SetExpiration_swap:
  "Expiration (snd (SetExpiration b e s)) b = e
   \<and> (fst (SetExpiration b e s) \<longleftrightarrow> Expiration s b \<noteq> e)
   \<and> \<not> fst (SetExpiration b e (snd (SetExpiration b e s)))
   \<and> (\<forall>b'. b' \<noteq> b \<longrightarrow> bucket_heap (snd (SetExpiration b e s)) b' = bucket_heap s b')"
  by (simp add: SetExpiration_def Expiration_def)

theorem SetExpiration_swap_witness:
  "Expiration (snd (SetExpiration (0, 3) 1015 init_state)) (0, 3) = 1015
   \<and> fst (SetExpiration (0, 3) 1015 init_state)
   \<and> \<not> fst (SetExpiration (0, 3) 1015 (snd (SetExpiration (0, 3) 1015 init_state)))
   \<and> bucket_heap (snd (SetExpiration (0, 3) 1015 init_state)) (0, 4) = bucket_heap init_state (0, 4)"
proof -
  have "Expiration init_state (0, 3) \<noteq> 1015"
    by (simp add: Expiration_def init_state_def newBucket_def)
  moreover have "(0, 4) \<noteq> ((0, 3) :: bid)" by simp
  ultimately show ?thesis
    using SetExpiration_swap [of "(0, 3)" 1015 init_state] by blast
qed

section \<open>Construction\<close>

lemma New_eq:
  "New tick_d wsize now =
     (if tick_d <s 1000000 then Inl TickTooSmall
      else if makeslice_panics wsize then Inl MakeSliceLen
      else Inr (init_state
             \<lparr>wheels :=
                [\<lparr>tick = quo tick_d 1000000, wheelSize = wsize,
                  interval = quo tick_d 1000000 * wsize,
                  currentTime = truncate now (quo tick_d 1000000),
                  buckets = map (Pair 0) [0..<nat (sint wsize)]\<rparr>]\<rparr>))"
proof -
  have "init_state\<lparr>bucket_heap := (\<lambda>b. if fst b = 0 \<and> snd b < n then newBucket
            else bucket_heap init_state b)\<rparr> = init_state" for n :: nat
    by (simp add: init_state_def fun_eq_iff)
  moreover have "length (wheels init_state) = 0"
    by (simp add: init_state_def)
  ultimately show ?thesis
    by (simp add: New_def Let_def quo_ms_le0 newTimeWheel_def)
qed

lemma makeslice_panics_iff: "makeslice_panics n \<longleftrightarrow> n <s 0 \<or> 35184372088832 <s n"
  by (auto simp add: makeslice_panics_def ptrSize_def maxAlloc_def word_sless_alt)

text \<open>C6 as worded fails. A tick of half a millisecond is positive, the slot count
  is positive, and construction panics. A tick of one millisecond with \<open>2\<^sup>6\<^sup>2\<close> slots
  panics as well, in \<^verbatim>\<open>make\<close>.\<close>

theorem New_positive_tick_panics:
  "0 <s (500000 :: i64) \<and> 0 <s (12 :: i64) \<and> New 500000 12 1000 = Inl TickTooSmall
   \<and> 0 <s (1000000 :: i64) \<and> 0 <s (4611686018427387904 :: i64)
   \<and> New 1000000 4611686018427387904 1000 = Inl MakeSliceLen"
  by (simp add: New_eq word_sless_alt makeslice_panics_iff)

text \<open>
  C6, as the code has it. The test of \<^verbatim>\<open>New\<close> is on the tick in whole milliseconds:
  it panics for every tick shorter than one millisecond, whatever the slot count.
  For a longer tick it panics when \<^verbatim>\<open>make\<close> refuses the slot count, which it does
  for a negative one and for one above \<open>2\<^sup>4\<^sup>5\<close>. So for a positive slot count that
  \<^verbatim>\<open>make\<close> accepts, construction panics exactly when the tick is shorter than one
  millisecond; otherwise it returns an engine with no loop started and the stop
  channel open, one level whose tick is the tick in whole milliseconds, positive and
  not clamped, with one bucket for each slot, an empty queue and no task started.
\<close>

theorem New_panics_iff:
  "(quo tick_d 1000000 \<le>s 0 \<longleftrightarrow> tick_d <s 1000000)
   \<and> (makeslice_panics wsize \<longleftrightarrow> wsize <s 0 \<or> 35184372088832 <s wsize)
   \<and> (tick_d <s 1000000 \<longrightarrow> New tick_d wsize now = Inl TickTooSmall)
   \<and> (\<not> tick_d <s 1000000 \<and> makeslice_panics wsize \<longrightarrow>
        New tick_d wsize now = Inl MakeSliceLen)
   \<and> (0 <s wsize \<and> \<not> makeslice_panics wsize \<longrightarrow>
        ((\<exists>err. New tick_d wsize now = Inl err) \<longleftrightarrow> tick_d <s 1000000)
        \<and> (\<not> tick_d <s 1000000 \<longrightarrow>
             (\<exists>s tw. New tick_d wsize now = Inr s \<and> loops s = 0 \<and> \<not> stopped s
                \<and> wheels s = [tw] \<and> tick tw = quo tick_d 1000000 \<and> 0 <s tick tw
                \<and> sint (tick tw) = sint tick_d sdiv 1000000
                \<and> wheelSize tw = wsize \<and> length (buckets tw) = nat (sint wsize)
                \<and> queue s = [] \<and> spawned s = [])))"
proof (intro conjI impI)
  show "quo tick_d 1000000 \<le>s 0 \<longleftrightarrow> tick_d <s 1000000" by (rule quo_ms_le0)
  show "makeslice_panics wsize \<longleftrightarrow> wsize <s 0 \<or> 35184372088832 <s wsize"
    by (rule makeslice_panics_iff)
next
  assume "tick_d <s 1000000"
  then show "New tick_d wsize now = Inl TickTooSmall" by (simp add: New_eq)
next
  assume "\<not> tick_d <s 1000000 \<and> makeslice_panics wsize"
  then show "New tick_d wsize now = Inl MakeSliceLen" by (simp add: New_eq)
next
  assume "0 <s wsize \<and> \<not> makeslice_panics wsize"
  then show "(\<exists>err. New tick_d wsize now = Inl err) \<longleftrightarrow> tick_d <s 1000000"
    by (simp add: New_eq)
next
  assume a: "0 <s wsize \<and> \<not> makeslice_panics wsize" and b: "\<not> tick_d <s 1000000"
  from b have "0 <s quo tick_d 1000000"
    using quo_ms_le0 [of tick_d] by (simp add: word_sle_eq word_sless_alt)
  with a b show "\<exists>s tw. New tick_d wsize now = Inr s \<and> loops s = 0 \<and> \<not> stopped s
           \<and> wheels s = [tw] \<and> tick tw = quo tick_d 1000000 \<and> 0 <s tick tw
           \<and> sint (tick tw) = sint tick_d sdiv 1000000
           \<and> wheelSize tw = wsize \<and> length (buckets tw) = nat (sint wsize)
           \<and> queue s = [] \<and> spawned s = []"
    by (simp add: New_eq quo_ms) (simp add: init_state_def)
qed

theorem New_panics_iff_witness:
  "0 <s (12 :: i64) \<and> \<not> makeslice_panics 12 \<and> \<not> (5000000 :: i64) <s 1000000
   \<and> (\<exists>s tw. New 5000000 12 1000 = Inr s \<and> loops s = 0 \<and> \<not> stopped s
          \<and> wheels s = [tw] \<and> tick tw = 5 \<and> length (buckets tw) = 12)
   \<and> (500000 :: i64) <s 1000000 \<and> New 500000 12 1000 = Inl TickTooSmall"
proof -
  have h: "0 <s (12 :: i64) \<and> \<not> makeslice_panics 12 \<and> \<not> (5000000 :: i64) <s 1000000"
    by (simp add: word_sless_alt makeslice_panics_iff)
  have g: "(500000 :: i64) <s 1000000" by (simp add: word_sless_alt)
  have q: "quo 5000000 1000000 = 5"
    by (simp add: quo_def signed_divide_int_def)
  have n: "nat (sint (12 :: i64)) = 12" by simp
  from New_panics_iff [of 5000000 12 1000] h have
    "\<exists>s tw. New 5000000 12 1000 = Inr s \<and> loops s = 0 \<and> \<not> stopped s
          \<and> wheels s = [tw] \<and> tick tw = 5 \<and> length (buckets tw) = 12"
    unfolding q n by blast
  moreover from New_panics_iff [of 500000 12 1000] g
  have "New 500000 12 1000 = Inl TickTooSmall" by blast
  ultimately show ?thesis using h g by blast
qed

section \<open>Advancing the clock\<close>

lemma advanceClock_length [simp]: "length (advanceClock ws e) = length ws"
  by (induction ws arbitrary: e) (simp_all add: Let_def)

text \<open>C5 as worded fails. \<^verbatim>\<open>New(5*time.Millisecond, 12)\<close> at 20 ms before the epoch
  has the current time \<open>-20\<close>. \<^verbatim>\<open>advanceClock(-7)\<close> sets the current time to \<open>-5\<close>:
  Go's remainder has the sign of the dividend, so truncation rounds a negative
  expiration up, and the new current time exceeds the expiration.\<close>

theorem advanceClock_exceeds_negative:
  "New 5000000 12 (- 20) = Inr (init_state\<lparr>wheels := [w5\<lparr>currentTime := - 20\<rparr>]\<rparr>)
   \<and> \<not> (- 7 <s currentTime (w5\<lparr>currentTime := - 20\<rparr>) + tick (w5\<lparr>currentTime := - 20\<rparr>))
   \<and> advanceClock [w5\<lparr>currentTime := - 20\<rparr>] (- 7) = [w5\<lparr>currentTime := - 5\<rparr>]
   \<and> (- 7 :: i64) <s - 5"
proof -
  have q: "quo 5000000 1000000 = 5" by (simp add: quo_def signed_divide_int_def)
  have tr: "truncate (- 20) 5 = - 20" "truncate (- 7) 5 = - 5"
    by (simp_all add: truncate_def rem_def signed_modulo_int_def word_sle_eq)
  show ?thesis
    by (simp add: New_eq q tr w5_def word_sless_alt word_sle_eq makeslice_panics_def ptrSize_def maxAlloc_def)
qed

text \<open>
  C5, as the code has it. \<^verbatim>\<open>advanceClock(e)\<close> on a level \<open>tw\<close> with overflow chain
  \<open>ov\<close>: when \<open>e < currentTime + tick\<close> nothing changes; otherwise the current time of
  \<open>tw\<close> becomes \<open>truncate e tick\<close> and the overflow chain is advanced with that new
  current time (an empty chain stays empty). A tick that is not positive leaves \<open>e\<close>
  as it is. For a positive tick the new current time is \<open>e\<close> rounded toward zero to
  a multiple of the tick, and it is \<open>e\<close> itself exactly when \<open>e\<close> is such a multiple:
  it does not exceed an expiration that is not negative, and it is not below a
  negative one. Called on level \<open>k\<close>, it leaves every finer level \<open>j < k\<close> as it was.
\<close>

theorem advanceClock_level:
  "advanceClock (tw # ov) e =
     (if e <s currentTime tw + tick tw then tw # ov
      else tw\<lparr>currentTime := truncate e (tick tw)\<rparr> # advanceClock ov (truncate e (tick tw)))
   \<and> advanceClock [] e = []
   \<and> (tick tw \<le>s 0 \<longrightarrow> truncate e (tick tw) = e)
   \<and> (0 <s tick tw \<longrightarrow>
        sint (truncate e (tick tw)) = (sint e sdiv sint (tick tw)) * sint (tick tw)
        \<and> sint (tick tw) dvd sint (truncate e (tick tw))
        \<and> \<bar>sint (truncate e (tick tw))\<bar> \<le> \<bar>sint e\<bar>
        \<and> (truncate e (tick tw) = e \<longleftrightarrow> sint (tick tw) dvd sint e))
   \<and> (0 <s tick tw \<and> 0 \<le>s e \<longrightarrow> truncate e (tick tw) \<le>s e)
   \<and> (0 <s tick tw \<and> e <s 0 \<longrightarrow> e \<le>s truncate e (tick tw))
   \<and> (\<forall>j < k. wheels (advanceClock_at k e s) ! j = wheels s ! j)"
proof (intro conjI impI allI)
  show "advanceClock (tw # ov) e =
     (if e <s currentTime tw + tick tw then tw # ov
      else tw\<lparr>currentTime := truncate e (tick tw)\<rparr> # advanceClock ov (truncate e (tick tw)))"
    by (auto simp add: Let_def word_sless_alt word_sle_eq)
next
  show "advanceClock [] e = []" by simp
next
  assume "tick tw \<le>s 0"
  then show "truncate e (tick tw) = e" by (simp add: truncate_def)
next
  assume "0 <s tick tw"
  then have pos: "0 < sint (tick tw)" by (simp add: word_sless_alt)
  show "sint (truncate e (tick tw)) = (sint e sdiv sint (tick tw)) * sint (tick tw)"
    using pos by (rule sint_truncate_mult)
  then show "sint (tick tw) dvd sint (truncate e (tick tw))" by simp
  show "\<bar>sint (truncate e (tick tw))\<bar> \<le> \<bar>sint e\<bar>"
    using sint_truncate [OF pos, of e] smod_bounds [OF pos, of "sint e"]
    by (cases "0 \<le> sint e") linarith+
  show "truncate e (tick tw) = e \<longleftrightarrow> sint (tick tw) dvd sint e"
    using pos by (rule truncate_fixed_iff)
next
  assume "0 <s tick tw \<and> 0 \<le>s e"
  then show "truncate e (tick tw) \<le>s e"
    using truncate_le [of "tick tw" e] by (simp add: word_sless_alt word_sle_eq)
next
  assume "0 <s tick tw \<and> e <s 0"
  then show "e \<le>s truncate e (tick tw)"
    using truncate_ge [of "tick tw" e] by (simp add: word_sless_alt word_sle_eq)
next
  fix j assume "j < k"
  then show "wheels (advanceClock_at k e s) ! j = wheels s ! j"
    by (cases "k \<le> length (wheels s)") (simp_all add: advanceClock_at_def nth_append)
qed

theorem advanceClock_level_witness:
  "0 <s tick w5 \<and> 0 \<le>s (1023 :: i64) \<and> (0 :: nat) < 1
   \<and> advanceClock [w5, w60] 1023 = [w5\<lparr>currentTime := 1020\<rparr>, w60\<lparr>currentTime := 1020\<rparr>]
   \<and> advanceClock [w5, w60] 1004 = [w5, w60]
   \<and> truncate 1023 (tick w5) \<le>s 1023
   \<and> (- 7 :: i64) <s 0 \<and> - 7 \<le>s truncate (- 7) (tick w5)
   \<and> wheels (advanceClock_at 1 2000 (init_state\<lparr>wheels := [w5, w60]\<rparr>)) ! 0 = w5"
proof -
  have t: "truncate 1023 5 = 1020" "truncate 1020 60 = 1020"
    by (simp_all add: truncate_def rem_def signed_modulo_int_def word_sle_eq)
  have h: "0 <s tick w5 \<and> 0 \<le>s (1023 :: i64)"
    by (simp add: w5_def word_sless_alt word_sle_eq)
  have a: "advanceClock [w5, w60] 1023 = [w5\<lparr>currentTime := 1020\<rparr>, w60\<lparr>currentTime := 1020\<rparr>]"
    using advanceClock_level [of w5 "[w60]" 1023 0 init_state]
      advanceClock_level [of w60 "[]" 1020 0 init_state]
    by (simp add: w5_def w60_def t word_sless_alt)
  have b: "advanceClock [w5, w60] 1004 = [w5, w60]"
    using advanceClock_level [of w5 "[w60]" 1004 0 init_state]
    by (simp add: w5_def word_sless_alt)
  have c: "truncate 1023 (tick w5) \<le>s 1023"
    using advanceClock_level [of w5 "[w60]" 1023 0 init_state] h by blast
  have g: "(- 7 :: i64) <s 0" by (simp add: word_sless_alt)
  have n: "- 7 \<le>s truncate (- 7) (tick w5)"
    using advanceClock_level [of w5 "[w60]" "- 7" 0 init_state] h g by blast
  have d: "wheels (advanceClock_at 1 2000 (init_state\<lparr>wheels := [w5, w60]\<rparr>)) ! 0 = w5"
    using advanceClock_level [of w5 "[w60]" 2000 1 "init_state\<lparr>wheels := [w5, w60]\<rparr>"]
    by simp
  from h a b c g n d show ?thesis by simp
qed

section \<open>Linking and unlinking timers\<close>

lemma linked_init: "linked init_state"
  by (simp add: linked_def back_refs_def elements_ok_def init_state_def getBucket_def
      no_timer_def newBucket_def)

lemma Add_eq:
  "Add b t s =
     (if mu (bucket_heap s b) then Inl Deadlock
      else Inr (s\<lparr>bucket_heap := (bucket_heap s)
                    (b := (bucket_heap s b)\<lparr>timers := timers (bucket_heap s b) @ [(next_elem s, t)]\<rparr>),
                  timer_heap := (timer_heap s)
                    (t := (timer_heap s t)\<lparr>element := Some (next_elem s), bucket := Some b\<rparr>),
                  next_elem := Suc (next_elem s)\<rparr>))"
proof (cases "mu (bucket_heap s b)")
  case True
  then show ?thesis by (simp add: Add_def Lock_def)
next
  case False
  then have "(bucket_heap s b)\<lparr>timers := ts, mu := False\<rparr> = (bucket_heap s b)\<lparr>timers := ts\<rparr>" for ts
    by (cases "bucket_heap s b") simp
  note upd = this
  from False show ?thesis
    by (simp add: Add_def Lock_def PushBack_def Unlock_def setBucket_def Let_def upd)
qed

lemma remove_timer_eq:
  "remove_timer b t s =
     (if getBucket s t \<noteq> Some b then Inr (False, s)
      else case element (timer_heap s t) of
             None \<Rightarrow> Inl NilDereference
           | Some e \<Rightarrow>
               Inr (True,
                 s\<lparr>bucket_heap := (bucket_heap s)
                      (b := (bucket_heap s b)
                         \<lparr>timers := filter (\<lambda>x. fst x \<noteq> e) (timers (bucket_heap s b))\<rparr>),
                   timer_heap := (timer_heap s)
                      (t := (timer_heap s t)\<lparr>bucket := None, element := None\<rparr>)\<rparr>))"
  by (simp add: remove_timer_def Remove_def setBucket_def Let_def split: option.splits)

lemma Add_linked:
  assumes "linked s" "getBucket s t = None" "Add b t s = Inr s'"
  shows "linked s'" "getBucket s' t = Some b" "t \<in> snd ` set (timers (bucket_heap s' b))"
proof -
  from assms(3) have s': "s' = s\<lparr>bucket_heap := (bucket_heap s)
                    (b := (bucket_heap s b)\<lparr>timers := timers (bucket_heap s b) @ [(next_elem s, t)]\<rparr>),
                  timer_heap := (timer_heap s)
                    (t := (timer_heap s t)\<lparr>element := Some (next_elem s), bucket := Some b\<rparr>),
                  next_elem := Suc (next_elem s)\<rparr>"
    by (simp add: Add_eq split: if_splits)
  from assms(1) have br: "\<And>t b. getBucket s t = Some b \<longleftrightarrow> t \<in> snd ` set (timers (bucket_heap s b))"
    and el: "\<And>b e t. (e, t) \<in> set (timers (bucket_heap s b)) \<Longrightarrow>
        element (timer_heap s t) = Some e \<and> e < next_elem s"
    and di: "\<And>b. distinct (map fst (timers (bucket_heap s b)))"
    by (auto simp: linked_def back_refs_def elements_ok_def)
  have unlinked: "(e, t) \<notin> set (timers (bucket_heap s b'))" for e b'
    using br [of t b'] assms(2) by force
  have "back_refs s'"
    unfolding back_refs_def
  proof (intro allI)
    fix t' b'
    show "getBucket s' t' = Some b' \<longleftrightarrow> t' \<in> snd ` set (timers (bucket_heap s' b'))"
      using br [of t' b'] unlinked [of _ b'] by (auto simp: s' getBucket_def)
  qed
  moreover have "elements_ok s'"
    unfolding elements_ok_def
  proof (rule conjI; intro allI impI)
    fix b' e t' assume "(e, t') \<in> set (timers (bucket_heap s' b'))"
    then show "element (timer_heap s' t') = Some e \<and> e < next_elem s'"
      using el [of e t' b'] unlinked [of e b']
      by (auto simp: s' split: if_splits)
  next
    fix b' show "distinct (map fst (timers (bucket_heap s' b')))"
      using di [of b'] el [of "next_elem s" _ b'] by (auto simp: s')
  qed
  ultimately show "linked s'" by (simp add: linked_def)
  show "getBucket s' t = Some b" by (simp add: s' getBucket_def)
  show "t \<in> snd ` set (timers (bucket_heap s' b))" by (simp add: s')
qed


lemma remove_timer_linked:
  assumes "linked s" "remove_timer b t s = Inr (r, s')"
  shows "linked s'" "r \<longleftrightarrow> getBucket s t = Some b"
    "r \<Longrightarrow> getBucket s' t = None \<and> element (timer_heap s' t) = None
        \<and> t \<notin> snd ` set (timers (bucket_heap s' b))"
    "\<not> r \<Longrightarrow> s' = s"
proof -
  from assms(1) have br: "\<And>t b. getBucket s t = Some b \<longleftrightarrow> t \<in> snd ` set (timers (bucket_heap s b))"
    and el: "\<And>b e t. (e, t) \<in> set (timers (bucket_heap s b)) \<Longrightarrow>
        element (timer_heap s t) = Some e \<and> e < next_elem s"
    and di: "\<And>b. distinct (map fst (timers (bucket_heap s b)))"
    by (auto simp: linked_def back_refs_def elements_ok_def)
  show r: "r \<longleftrightarrow> getBucket s t = Some b"
    using assms(2) by (auto simp: remove_timer_eq split: if_splits option.splits)
  show "\<not> r \<Longrightarrow> s' = s"
    using assms(2) by (auto simp: remove_timer_eq split: if_splits option.splits)
  show "linked s'"
  proof (cases r)
    case False
    then show ?thesis using assms by (auto simp: remove_timer_eq split: if_splits option.splits)
  next
    case True
    with r have own: "getBucket s t = Some b" by simp
    then obtain e where e: "element (timer_heap s t) = Some e"
      and s': "s' = s\<lparr>bucket_heap := (bucket_heap s)
                      (b := (bucket_heap s b)
                         \<lparr>timers := filter (\<lambda>x. fst x \<noteq> e) (timers (bucket_heap s b))\<rparr>),
                   timer_heap := (timer_heap s)
                      (t := (timer_heap s t)\<lparr>bucket := None, element := None\<rparr>)\<rparr>"
      using assms(2) by (auto simp: remove_timer_eq split: if_splits option.splits)
    have only: "(e', t') \<in> set (timers (bucket_heap s b)) \<Longrightarrow> e' = e \<longleftrightarrow> t' = t" for e' t'
    proof
      assume a: "(e', t') \<in> set (timers (bucket_heap s b))" and "e' = e"
      from own br [of t b] obtain e2 where "(e2, t) \<in> set (timers (bucket_heap s b))" by auto
      with el [of e2 t b] e have "(e, t) \<in> set (timers (bucket_heap s b))" by simp
      with a \<open>e' = e\<close> di [of b] show "t' = t"
        by (metis eq_key_imp_eq_value)
    next
      assume "(e', t') \<in> set (timers (bucket_heap s b))" and "t' = t"
      with el [of e' t b] e show "e' = e" by simp
    qed
    have elsewhere: "b' \<noteq> b \<Longrightarrow> (e', t) \<notin> set (timers (bucket_heap s b'))" for e' b'
      using br [of t b'] own by force
    have "back_refs s'"
      unfolding back_refs_def
    proof (intro allI)
      fix t' b'
      show "getBucket s' t' = Some b' \<longleftrightarrow> t' \<in> snd ` set (timers (bucket_heap s' b'))"
        using br [of t' b'] only elsewhere [of b'] by (auto simp: s' getBucket_def) force+
    qed
    moreover have "elements_ok s'"
      unfolding elements_ok_def
    proof (rule conjI; intro allI impI)
      fix b' e' t' assume "(e', t') \<in> set (timers (bucket_heap s' b'))"
      then show "element (timer_heap s' t') = Some e' \<and> e' < next_elem s'"
        using el [of e' t' b'] only [of e' t'] elsewhere [of b' e']
        by (auto simp: s' split: if_splits)
    next
      fix b' show "distinct (map fst (timers (bucket_heap s' b')))"
        using di [of b'] by (auto simp: s' distinct_map_filter)
    qed
    ultimately show ?thesis by (simp add: linked_def)
  qed
  show "r \<Longrightarrow> getBucket s' t = None \<and> element (timer_heap s' t) = None
        \<and> t \<notin> snd ` set (timers (bucket_heap s' b))"
  proof -
    assume r
    with r have own: "getBucket s t = Some b" by simp
    then obtain e where e: "element (timer_heap s t) = Some e"
      and s': "s' = s\<lparr>bucket_heap := (bucket_heap s)
                      (b := (bucket_heap s b)
                         \<lparr>timers := filter (\<lambda>x. fst x \<noteq> e) (timers (bucket_heap s b))\<rparr>),
                   timer_heap := (timer_heap s)
                      (t := (timer_heap s t)\<lparr>bucket := None, element := None\<rparr>)\<rparr>"
      using assms(2) by (auto simp: remove_timer_eq split: if_splits option.splits)
    have "e' = e" if "(e', t) \<in> set (timers (bucket_heap s b))" for e'
      using el [OF that] e by simp
    then show ?thesis by (auto simp: s' getBucket_def)
  qed
qed

lemma Stop_eq:
  "Stop t s =
     (case getBucket s t of
        None \<Rightarrow> Inr (False, s)
      | Some b \<Rightarrow> remove_timer b t s)"
proof (cases "getBucket s t")
  case None
  then show ?thesis by (simp add: Stop_def)
next
  case (Some b)
  show ?thesis
  proof (cases "remove_timer b t s")
    case (Inl err)
    with Some show ?thesis by (simp add: Stop_def)
  next
    case (Inr x)
    obtain r s' where x: "x = (r, s')" by (cases x)
    with Inr Some have "getBucket s' t = None" "r"
      by (auto simp: remove_timer_eq getBucket_def split: option.splits if_splits)
    with Inr Some x show ?thesis by (simp add: Stop_def)
  qed
qed

lemma Stop_linked:
  assumes "linked s"
  shows "\<exists>r s'. Stop t s = Inr (r, s') \<and> (r \<longleftrightarrow> getBucket s t \<noteq> None)
     \<and> (r \<longrightarrow> (\<forall>b. getBucket s t = Some b \<longrightarrow> t \<notin> snd ` set (timers (bucket_heap s' b))))
     \<and> getBucket s' t = None \<and> (\<not> r \<longrightarrow> s' = s) \<and> linked s'"
proof (cases "getBucket s t")
  case None
  with assms show ?thesis by (auto simp add: Stop_eq)
next
  case (Some b)
  with assms have "t \<in> snd ` set (timers (bucket_heap s b))"
    unfolding linked_def back_refs_def by blast
  then obtain e where "(e, t) \<in> set (timers (bucket_heap s b))" by auto
  with assms have "element (timer_heap s t) = Some e"
    unfolding linked_def elements_ok_def by blast
  with Some obtain s' where rm: "remove_timer b t s = Inr (True, s')"
    by (simp add: remove_timer_eq)
  from remove_timer_linked [OF assms rm] Some rm show ?thesis
    by (auto simp add: Stop_eq)
qed

section \<open>Flushing a bucket\<close>

lemma linked_bucket_fields:
  assumes "linked s"
    and "\<And>b. timers (bucket_heap s' b) = timers (bucket_heap s b)"
    and "timer_heap s' = timer_heap s" and "next_elem s' = next_elem s"
  shows "linked s'"
  using assms by (simp add: linked_def back_refs_def elements_ok_def getBucket_def)

lemma Lock_props:
  assumes "Lock b s = Inr s1"
  shows "linked s \<Longrightarrow> linked s1" "mu (bucket_heap s1 b)"
    "timers (bucket_heap s1 b') = timers (bucket_heap s b')"
    "bexpiration (bucket_heap s1 b') = bexpiration (bucket_heap s b')"
    "alloc_ok s \<Longrightarrow> fst b < length (wheels s) \<Longrightarrow> alloc_ok s1"
    "wheels s1 = wheels s" "\<not> mu (bucket_heap s b)"
proof -
  from assms have s1: "s1 = s\<lparr>bucket_heap := (bucket_heap s)(b := (bucket_heap s b)\<lparr>mu := True\<rparr>)\<rparr>"
    and free: "\<not> mu (bucket_heap s b)"
    by (auto simp: Lock_def split: if_splits)
  show "linked s \<Longrightarrow> linked s1"
    by (erule linked_bucket_fields) (simp_all add: s1)
  show "mu (bucket_heap s1 b)" "timers (bucket_heap s1 b') = timers (bucket_heap s b')"
    "bexpiration (bucket_heap s1 b') = bexpiration (bucket_heap s b')" "wheels s1 = wheels s"
    by (simp_all add: s1)
  show "alloc_ok s \<Longrightarrow> fst b < length (wheels s) \<Longrightarrow> alloc_ok s1"
    by (auto simp: alloc_ok_def s1)
  show "\<not> mu (bucket_heap s b)" by (rule free)
qed

lemma finish_props:
  fixes s :: state and b :: bid
  defines "s' \<equiv> Unlock b (snd (SetExpiration b (- 1) s))"
  shows "linked s \<Longrightarrow> linked s'" "\<not> mu (bucket_heap s' b)" "Expiration s' b = - 1"
    "timers (bucket_heap s' b') = timers (bucket_heap s b')"
    "alloc_ok s \<Longrightarrow> fst b < length (wheels s) \<Longrightarrow> alloc_ok s'"
proof -
  show "linked s \<Longrightarrow> linked s'"
    by (erule linked_bucket_fields) (simp_all add: s'_def Unlock_def SetExpiration_def)
  show "\<not> mu (bucket_heap s' b)" "Expiration s' b = - 1"
    "timers (bucket_heap s' b') = timers (bucket_heap s b')"
    by (simp_all add: s'_def Unlock_def SetExpiration_def Expiration_def)
  show "alloc_ok s \<Longrightarrow> fst b < length (wheels s) \<Longrightarrow> alloc_ok s'"
    by (auto simp: alloc_ok_def s'_def Unlock_def SetExpiration_def)
qed

lemma unlink_head:
  assumes "linked s" and "alloc_ok s" and "timers (bucket_heap s b) = (a, t) # rest"
  shows "\<exists>s1. remove_timer b t s = Inr (True, s1) \<and> linked s1 \<and> alloc_ok s1
     \<and> getBucket s1 t = None \<and> timers (bucket_heap s1 b) = rest
     \<and> mu (bucket_heap s1 b) = mu (bucket_heap s b)
     \<and> bexpiration (bucket_heap s1 b) = bexpiration (bucket_heap s b)
     \<and> wheels s1 = wheels s \<and> spawned s1 = spawned s
     \<and> Next b a s = (case rest of [] \<Rightarrow> None | y # ys \<Rightarrow> Some y)"
proof -
  from assms(1) have br: "\<And>t b. getBucket s t = Some b \<longleftrightarrow> t \<in> snd ` set (timers (bucket_heap s b))"
    and el: "\<And>b e t. (e, t) \<in> set (timers (bucket_heap s b)) \<Longrightarrow>
        element (timer_heap s t) = Some e \<and> e < next_elem s"
    and di: "\<And>b. distinct (map fst (timers (bucket_heap s b)))"
    by (auto simp: linked_def back_refs_def elements_ok_def)
  have own: "getBucket s t = Some b" using br [of t b] assms(3) by force
  have elt: "element (timer_heap s t) = Some a" using el [of a t b] assms(3) by simp
  have fresh: "a \<notin> fst ` set rest" using di [of b] assms(3) by simp
  then have filt: "filter (\<lambda>x. fst x \<noteq> a) rest = rest"
    by (intro filter_True) force
  define s1 where "s1 = s\<lparr>bucket_heap := (bucket_heap s)
                      (b := (bucket_heap s b)
                         \<lparr>timers := filter (\<lambda>x. fst x \<noteq> a) (timers (bucket_heap s b))\<rparr>),
                   timer_heap := (timer_heap s)
                      (t := (timer_heap s t)\<lparr>bucket := None, element := None\<rparr>)\<rparr>"
  have rm: "remove_timer b t s = Inr (True, s1)"
    using own elt by (simp add: remove_timer_eq s1_def)
  have alloc: "fst b < length (wheels s)"
  proof (rule ccontr)
    assume "\<not> fst b < length (wheels s)"
    with assms(2) have "bucket_heap s b = newBucket" by (cases b) (auto simp: alloc_ok_def)
    with assms(3) show False by (simp add: newBucket_def)
  qed
  have "alloc_ok s1" using assms(2) alloc by (auto simp: alloc_ok_def s1_def)
  moreover have "timers (bucket_heap s1 b) = rest"
    using assms(3) filt by (simp add: s1_def)
  moreover have "Next b a s = (case rest of [] \<Rightarrow> None | y # ys \<Rightarrow> Some y)"
    using assms(3) by (simp add: Next_def)
  moreover have "mu (bucket_heap s1 b) = mu (bucket_heap s b)"
    "bexpiration (bucket_heap s1 b) = bexpiration (bucket_heap s b)"
    "wheels s1 = wheels s" "spawned s1 = spawned s"
    by (simp_all add: s1_def)
  ultimately show ?thesis
    using rm remove_timer_linked(1,3) [OF assms(1) rm] by simp
qed

lemma Flush_loop_eq:
  assumes "callback_ok f b" and "linked s" and "alloc_ok s" and "mu (bucket_heap s b)"
  shows "Flush_loop f b (Front b s) s = flush_each f b (timers (bucket_heap s b)) s"
  using assms(2-4)
proof (induction "timers (bucket_heap s b)" arbitrary: s)
  case Nil
  then show ?case
    by (subst Flush_loop.simps) (simp add: Front_def flip: Nil.hyps)
next
  case (Cons x xs)
  obtain a t where x: "x = (a, t)" by (cases x)
  from Cons.hyps(2) x have ts: "timers (bucket_heap s b) = (a, t) # xs" by simp
  from unlink_head [OF Cons.prems(1,2) ts] obtain s1 where
    rm: "remove_timer b t s = Inr (True, s1)" and l1: "linked s1" and a1: "alloc_ok s1"
    and u1: "getBucket s1 t = None" and ts1: "timers (bucket_heap s1 b) = xs"
    and m1: "mu (bucket_heap s1 b)"
    and nx: "Next b a s = (case xs of [] \<Rightarrow> None | y # ys \<Rightarrow> Some y)"
    using Cons.prems(3) by auto
  have front: "Front b s = Some (a, t)" by (simp add: Front_def ts)
  show ?case
  proof (cases "f t s1")
    case None
    then show ?thesis
      by (subst Flush_loop.simps) (simp add: front rm ts)
  next
    case (Some res)
    show ?thesis
    proof (cases res)
      case (Inl err)
      with Some show ?thesis
        by (subst Flush_loop.simps) (simp add: front rm ts)
    next
      case (Inr s2)
      with Some assms(1) l1 a1 u1 m1 have l2: "linked s2" and a2: "alloc_ok s2"
        and same: "bucket_heap s2 b = bucket_heap s1 b"
        unfolding callback_ok_def by blast+
      have "xs = timers (bucket_heap s2 b)" using same ts1 by simp
      then have IH: "Flush_loop f b (Front b s2) s2 = flush_each f b (timers (bucket_heap s2 b)) s2"
        using l2 a2 m1 same by (intro Cons.hyps(1)) simp_all
      have "Front b s2 = (case xs of [] \<Rightarrow> None | y # ys \<Rightarrow> Some y)"
        using same ts1 by (simp add: Front_def)
      with IH Some Inr nx same ts1 show ?thesis
        by (subst Flush_loop.simps) (simp add: front rm ts)
    qed
  qed
qed

lemma flush_each_result:
  assumes "callback_ok f b" and "linked s" and "alloc_ok s" and "mu (bucket_heap s b)"
    and "flush_each f b (timers (bucket_heap s b)) s = Some (Inr s')"
  shows "linked s' \<and> alloc_ok s' \<and> timers (bucket_heap s' b) = [] \<and> mu (bucket_heap s' b)
     \<and> bexpiration (bucket_heap s' b) = bexpiration (bucket_heap s b)"
  using assms(2-5)
proof (induction "timers (bucket_heap s b)" arbitrary: s)
  case Nil
  from Nil.hyps [symmetric] Nil.prems show ?case by simp
next
  case (Cons x xs)
  obtain a t where x: "x = (a, t)" by (cases x)
  from Cons.hyps(2) x have ts: "timers (bucket_heap s b) = (a, t) # xs" by simp
  from unlink_head [OF Cons.prems(1,2) ts] obtain s1 where
    rm: "remove_timer b t s = Inr (True, s1)" and l1: "linked s1" and a1: "alloc_ok s1"
    and u1: "getBucket s1 t = None" and ts1: "timers (bucket_heap s1 b) = xs"
    and m1: "mu (bucket_heap s1 b)"
    and x1: "bexpiration (bucket_heap s1 b) = bexpiration (bucket_heap s b)"
    using Cons.prems(3) by auto
  from Cons.prems(4) obtain s2 where f: "f t s1 = Some (Inr s2)"
    and rest: "flush_each f b xs s2 = Some (Inr s')"
    by (auto simp: ts rm split: option.splits sum.splits)
  from f assms(1) l1 a1 u1 m1 have l2: "linked s2" and a2: "alloc_ok s2"
    and same: "bucket_heap s2 b = bucket_heap s1 b"
    unfolding callback_ok_def by blast+
  have "xs = timers (bucket_heap s2 b)" using same ts1 by simp
  then have "linked s' \<and> alloc_ok s' \<and> timers (bucket_heap s' b) = [] \<and> mu (bucket_heap s' b)
     \<and> bexpiration (bucket_heap s' b) = bexpiration (bucket_heap s2 b)"
    using l2 a2 m1 same rest by (intro Cons.hyps(1)) simp_all
  then show ?case using same x1 by simp
qed

lemma Flush_eq:
  assumes "callback_ok f b" and "linked s" and "alloc_ok s" and "fst b < length (wheels s)"
    and "\<not> mu (bucket_heap s b)"
  shows "\<exists>s1. Lock b s = Inr s1 \<and> linked s1 \<and> alloc_ok s1 \<and> mu (bucket_heap s1 b)
     \<and> timers (bucket_heap s1 b) = timers (bucket_heap s b)
     \<and> Flush f b s =
         (case flush_each f b (timers (bucket_heap s b)) s1 of
            None \<Rightarrow> None
          | Some (Inl err) \<Rightarrow> Some (Inl err)
          | Some (Inr s2) \<Rightarrow> Some (Inr (Unlock b (snd (SetExpiration b (- 1) s2)))))"
proof -
  from assms(5) obtain s1 where lk: "Lock b s = Inr s1" by (simp add: Lock_def)
  note p = Lock_props [OF lk]
  have l1: "linked s1" and a1: "alloc_ok s1" and m1: "mu (bucket_heap s1 b)"
    and ts: "timers (bucket_heap s1 b) = timers (bucket_heap s b)"
    using p assms(2-4) by simp_all
  have "Flush_loop f b (Front b s1) s1 = flush_each f b (timers (bucket_heap s1 b)) s1"
    using assms(1) l1 a1 m1 by (rule Flush_loop_eq)
  then show ?thesis using lk l1 a1 m1 ts by (simp add: Flush_def)
qed

lemma Flush_result:
  assumes "callback_ok f b" and "linked s" and "alloc_ok s" and "fst b < length (wheels s)"
    and "Flush f b s = Some (Inr s')"
  shows "linked s'" "alloc_ok s'" "timers (bucket_heap s' b) = []" "Expiration s' b = - 1"
    "\<not> mu (bucket_heap s' b)"
proof -
  from assms(5) have free: "\<not> mu (bucket_heap s b)"
    by (auto simp: Flush_def Lock_def split: if_splits)
  from Flush_eq [OF assms(1-4) free] obtain s1 where l1: "linked s1" and a1: "alloc_ok s1"
    and m1: "mu (bucket_heap s1 b)" and ts: "timers (bucket_heap s1 b) = timers (bucket_heap s b)"
    and eq: "Flush f b s =
         (case flush_each f b (timers (bucket_heap s b)) s1 of
            None \<Rightarrow> None
          | Some (Inl err) \<Rightarrow> Some (Inl err)
          | Some (Inr s2) \<Rightarrow> Some (Inr (Unlock b (snd (SetExpiration b (- 1) s2)))))"
    by blast
  from eq assms(5) obtain s2 where each: "flush_each f b (timers (bucket_heap s1 b)) s1 = Some (Inr s2)"
    and s': "s' = Unlock b (snd (SetExpiration b (- 1) s2))"
    by (auto simp: ts split: option.splits sum.splits)
  from flush_each_result [OF assms(1) l1 a1 m1 each]
  have l2: "linked s2" and a2: "alloc_ok s2" and e2: "timers (bucket_heap s2 b) = []"
    and m2: "mu (bucket_heap s2 b)"
    by simp_all
  have al: "fst b < length (wheels s2)"
  proof (rule ccontr)
    assume "\<not> fst b < length (wheels s2)"
    with a2 have "bucket_heap s2 b = newBucket" by (cases b) (auto simp: alloc_ok_def)
    with m2 show False by (simp add: newBucket_def)
  qed
  show "linked s'" "alloc_ok s'" "timers (bucket_heap s' b) = []" "Expiration s' b = - 1"
    "\<not> mu (bucket_heap s' b)"
    unfolding s' using finish_props [where s = s2 and b = b] l2 a2 al e2 by simp_all
qed

lemma readd_deadlocks:
  assumes "linked s" and "alloc_ok s" and "fst b < length (wheels s)"
    and "\<not> mu (bucket_heap s b)" and "timers (bucket_heap s b) \<noteq> []"
  shows "Flush (readd b) b s = Some (Inl Deadlock)"
proof -
  have ok: "callback_ok (readd b) b"
    by (simp add: callback_ok_def readd_def Add_eq)
  from Flush_eq [OF ok assms(1-4)] obtain s1 where l1: "linked s1" and a1: "alloc_ok s1"
    and m1: "mu (bucket_heap s1 b)" and ts: "timers (bucket_heap s1 b) = timers (bucket_heap s b)"
    and eq: "Flush (readd b) b s =
         (case flush_each (readd b) b (timers (bucket_heap s b)) s1 of
            None \<Rightarrow> None
          | Some (Inl err) \<Rightarrow> Some (Inl err)
          | Some (Inr s2) \<Rightarrow> Some (Inr (Unlock b (snd (SetExpiration b (- 1) s2)))))"
    by blast
  from assms(5) obtain a t rest where ts': "timers (bucket_heap s1 b) = (a, t) # rest"
    using ts by (cases "timers (bucket_heap s b)") auto
  from unlink_head [OF l1 a1 ts'] obtain s2 where
    rm: "remove_timer b t s1 = Inr (True, s2)" and m2: "mu (bucket_heap s2 b)"
    using m1 by auto
  have tsb: "timers (bucket_heap s b) = (a, t) # rest" using ts ts' by simp
  have "flush_each (readd b) b (timers (bucket_heap s b)) s1 = Some (Inl Deadlock)"
    using rm m2 by (simp add: tsb readd_def Add_eq)
  with eq show ?thesis by simp
qed

lemma probe_ok: "callback_ok (probe b') b"
  unfolding callback_ok_def probe_def
  by (auto simp: alloc_ok_def intro: linked_bucket_fields)

section \<open>Placement\<close>

lemma level_ok_sums:
  assumes "level_ok tw"
  shows "sint (currentTime tw + tick tw) = sint (currentTime tw) + sint (tick tw)"
    and "sint (currentTime tw + interval tw) = sint (currentTime tw) + sint (interval tw)"
    and "sint (tick tw) \<le> sint (interval tw)"
proof -
  from assms have t: "0 < sint (tick tw)" and z: "0 < sint (wheelSize tw)"
    and i: "sint (interval tw) = sint (tick tw) * sint (wheelSize tw)"
    and c: "0 \<le> sint (currentTime tw)"
    and b: "sint (currentTime tw) + sint (interval tw) < 2 ^ 63"
    by (simp_all add: level_ok_def)
  from t z have "sint (tick tw) * 1 \<le> sint (tick tw) * sint (wheelSize tw)"
    by (intro mult_left_mono) simp_all
  with i show le: "sint (tick tw) \<le> sint (interval tw)" by simp
  show "sint (currentTime tw + tick tw) = sint (currentTime tw) + sint (tick tw)"
    using t c b le by (intro sint_add_ok) linarith+
  show "sint (currentTime tw + interval tw) = sint (currentTime tw) + sint (interval tw)"
    using t c b le by (intro sint_add_ok) linarith+
qed

lemma slot_start:
  assumes "0 < sint m" "0 \<le> sint e"
  shows "quo e m * m = truncate e m"
proof -
  have q: "sint (quo e m) = sint e div sint m" using assms(2,1) by (rule sint_quo_pos)
  have "sint e div sint m * sint m = sint e - sint e mod sint m"
    by (simp add: minus_mod_eq_div_mult)
  moreover have "0 \<le> sint e mod sint m" "sint e mod sint m \<le> sint e"
    using assms by (simp_all add: zmod_le_nonneg_dividend)
  ultimately have "0 \<le> sint e div sint m * sint m" "sint e div sint m * sint m \<le> sint e"
    by linarith+
  then have "sint (quo e m * m) = sint (quo e m) * sint m"
    using sint_in [of e] by (intro sint_mul_ok; simp add: q; linarith)
  then have "sint (quo e m * m) = sint (truncate e m)"
    using assms by (simp add: q sint_truncate_pos minus_mod_eq_div_mult)
  then show ?thesis by (rule signed_word_eqI)
qed

lemma slot_index:
  assumes "0 < sint m" "0 \<le> sint e" "0 < sint n"
  shows "sint (rem (quo e m) n) = (sint e div sint m) mod sint n"
  using assms by (simp add: sint_rem_pos sint_quo_pos pos_imp_zdiv_nonneg_iff)


lemma add_due:
  assumes "k < length (wheels s)"
    and "expiration (timer_heap s t) <s currentTime (wheels s ! k) + tick (wheels s ! k)"
  shows "add k t s = Some (Inr (False, s))"
  using assms by (subst add.simps) (simp add: Let_def)

lemma add_delegate_old:
  assumes "Suc k < length (wheels s)"
    and "\<not> expiration (timer_heap s t) <s currentTime (wheels s ! k) + tick (wheels s ! k)"
    and "\<not> expiration (timer_heap s t) <s currentTime (wheels s ! k) + interval (wheels s ! k)"
  shows "add k t s = add (Suc k) t s"
  using assms by (subst add.simps) (simp add: Let_def)

lemma add_delegate_new:
  assumes "Suc k = length (wheels s)"
    and "\<not> expiration (timer_heap s t) <s currentTime (wheels s ! k) + tick (wheels s ! k)"
    and "\<not> expiration (timer_heap s t) <s currentTime (wheels s ! k) + interval (wheels s ! k)"
    and "newTimeWheel (interval (wheels s ! k)) (wheelSize (wheels s ! k))
           (currentTime (wheels s ! k)) s = Inr (ow, s1)"
  shows "add k t s = add (Suc k) t (s1\<lparr>wheels := wheels s1 @ [ow]\<rparr>)"
  using assms by (subst add.simps) (simp add: Let_def)

lemma add_place:
  fixes s :: state and k :: nat and t :: tid
  defines "tw \<equiv> wheels s ! k" and "e \<equiv> expiration (timer_heap s t)"
  defines "b \<equiv> buckets tw ! nat ((sint e div sint (tick tw)) mod sint (wheelSize tw))"
  assumes k: "k < length (wheels s)" and ok: "level_ok tw"
    and lo: "\<not> e <s currentTime tw + tick tw" and hi: "e <s currentTime tw + interval tw"
    and free: "\<not> mu (bucket_heap s b)"
  shows "\<exists>s1. Add b t s = Inr s1
     \<and> add k t s = Some (Inr (True,
          if Expiration s b \<noteq> truncate e (tick tw)
          then Offer b (truncate e (tick tw)) (snd (SetExpiration b (truncate e (tick tw)) s1))
          else snd (SetExpiration b (truncate e (tick tw)) s1)))"
proof -
  from ok have t: "0 < sint (tick tw)" and z: "0 < sint (wheelSize tw)"
    and c: "0 \<le> sint (currentTime tw)"
    and len: "length (buckets tw) = nat (sint (wheelSize tw))"
    by (simp_all add: level_ok_def)
  from lo have "sint (currentTime tw) + sint (tick tw) \<le> sint e"
    by (simp add: word_sless_alt level_ok_sums [OF ok])
  with t c have e0: "0 \<le> sint e" by linarith
  have t0: "tick tw \<noteq> 0" using t by auto
  have z0: "wheelSize tw \<noteq> 0" using z by auto
  have idx: "sint (rem (quo e (tick tw)) (wheelSize tw))
      = (sint e div sint (tick tw)) mod sint (wheelSize tw)"
    using t e0 z by (rule slot_index)
  have idx0: "0 \<le> (sint e div sint (tick tw)) mod sint (wheelSize tw)"
    and idx1: "(sint e div sint (tick tw)) mod sint (wheelSize tw) < sint (wheelSize tw)"
    using z by simp_all
  have inrange: "\<not> (rem (quo e (tick tw)) (wheelSize tw) <s 0
      \<or> length (buckets tw) \<le> nat (sint (rem (quo e (tick tw)) (wheelSize tw))))"
    using idx0 idx1 by (simp add: word_sless_alt idx len)
  have start: "quo e (tick tw) * tick tw = truncate e (tick tw)"
    using t e0 by (rule slot_start)
  obtain s1 where s1: "Add b t s = Inr s1"
    using free by (simp add: Add_eq)
  have exp1: "bexpiration (bucket_heap s1 b) = bexpiration (bucket_heap s b)"
    using s1 free by (auto simp: Add_eq)
  have "add k t s = Some (Inr (True,
          if Expiration s b \<noteq> truncate e (tick tw)
          then Offer b (truncate e (tick tw)) (snd (SetExpiration b (truncate e (tick tw)) s1))
          else snd (SetExpiration b (truncate e (tick tw)) s1)))"
    using k lo hi t0 z0 inrange s1 exp1
    unfolding tw_def [symmetric] e_def [symmetric]
    apply (subst add.simps)
    apply (simp add: Let_def tw_def [symmetric] e_def [symmetric] idx b_def [symmetric] start)
    apply (simp add: SetExpiration_def Expiration_def)
    done
  with s1 show ?thesis by blast
qed

lemma level_ok_w5: "level_ok w5"
  by (simp add: level_ok_def w5_def makeslice_panics_def ptrSize_def maxAlloc_def)

lemma ex_state_simps:
  "wheels (ex_state e) = [w5]" "expiration (timer_heap (ex_state e) 0) = e"
  "getBucket (ex_state e) 0 = None" "unlocked (ex_state e)" "queue (ex_state e) = []"
  "next_elem (ex_state e) = 0" "bucket_heap (ex_state e) b = newBucket"
  by (simp_all add: ex_state_def init_state_def getBucket_def unlocked_def newBucket_def)

text \<open>
  Placement within the range of \<^verbatim>\<open>int64\<close>. On a level that satisfies the construction
  invariant, for a timer whose expiration \<open>e\<close> has
  \<open>currentTime + tick \<le> e < currentTime + interval\<close> and whose bucket is not locked:
  \<^verbatim>\<open>add\<close> returns true; the timer is appended to the list of the bucket at slot
  \<open>(e / tick) mod slotCount\<close> and refers back to it; the expiration of that bucket
  becomes \<open>e\<close> truncated to a multiple of the tick; and the bucket is offered to the
  delay queue, under that expiration, exactly when \<^verbatim>\<open>SetExpiration\<close> reported a
  change, that is when the expiration stored before was another one. The levels are
  left as they were.
\<close>

theorem add_places_in_slot:
  fixes s :: state and k :: nat and t :: tid
  defines "tw \<equiv> wheels s ! k" and "e \<equiv> expiration (timer_heap s t)"
  defines "b \<equiv> buckets tw ! nat ((sint e div sint (tick tw)) mod sint (wheelSize tw))"
  assumes "k < length (wheels s)" and "level_ok tw"
    and "\<not> e <s currentTime tw + tick tw" and "e <s currentTime tw + interval tw"
    and "\<not> mu (bucket_heap s b)"
  shows "\<exists>s' s1. add k t s = Some (Inr (True, s'))
     \<and> timers (bucket_heap s' b) = timers (bucket_heap s b) @ [(next_elem s, t)]
     \<and> getBucket s' t = Some b
     \<and> Expiration s' b = truncate e (tick tw)
     \<and> sint (truncate e (tick tw)) = sint e - sint e mod sint (tick tw)
     \<and> Add b t s = Inr s1
     \<and> queue s' = (if fst (SetExpiration b (truncate e (tick tw)) s1)
                   then queue s @ [(b, truncate e (tick tw))] else queue s)
     \<and> (fst (SetExpiration b (truncate e (tick tw)) s1) \<longleftrightarrow> Expiration s b \<noteq> truncate e (tick tw))
     \<and> wheels s' = wheels s"
proof -
  from assms(5) have t: "0 < sint (tick tw)" and c: "0 \<le> sint (currentTime tw)"
    by (simp_all add: level_ok_def)
  from assms(6) have "sint (currentTime tw) + sint (tick tw) \<le> sint e"
    by (simp add: word_sless_alt level_ok_sums [OF assms(5)])
  with t c have e0: "0 \<le> sint e" by linarith
  from add_place [of k s t] assms obtain s1 where s1: "Add b t s = Inr s1"
    and r: "add k t s = Some (Inr (True,
          if Expiration s b \<noteq> truncate e (tick tw)
          then Offer b (truncate e (tick tw)) (snd (SetExpiration b (truncate e (tick tw)) s1))
          else snd (SetExpiration b (truncate e (tick tw)) s1)))"
    by blast
  from s1 assms(8) have s1_eq: "s1 = s\<lparr>bucket_heap := (bucket_heap s)
                    (b := (bucket_heap s b)\<lparr>timers := timers (bucket_heap s b) @ [(next_elem s, t)]\<rparr>),
                  timer_heap := (timer_heap s)
                    (t := (timer_heap s t)\<lparr>element := Some (next_elem s), bucket := Some b\<rparr>),
                  next_elem := Suc (next_elem s)\<rparr>"
    by (simp add: Add_eq)
  show ?thesis
    using r s1 sint_truncate_pos [OF e0 t]
    by (auto simp add: s1_eq SetExpiration_def Offer_def Expiration_def getBucket_def)
qed

theorem add_places_in_slot_witness:
  "(0::nat) < length (wheels (ex_state 1012)) \<and> level_ok (wheels (ex_state 1012) ! 0)
   \<and> \<not> (1012 :: i64) <s 1000 + 5 \<and> (1012 :: i64) <s 1000 + 60
   \<and> \<not> mu (bucket_heap (ex_state 1012) (0, 10))
   \<and> (\<exists>s'. add 0 0 (ex_state 1012) = Some (Inr (True, s'))
        \<and> timers (bucket_heap s' (0, 10)) = [(0, 0)]
        \<and> getBucket s' 0 = Some (0, 10)
        \<and> Expiration s' (0, 10) = 1010
        \<and> queue s' = [((0, 10), 1010)])"
proof -
  have h1: "(0::nat) < length (wheels (ex_state 1012))" by (simp add: ex_state_simps)
  have h2: "level_ok (wheels (ex_state 1012) ! 0)" by (simp add: ex_state_simps level_ok_w5)
  have h3: "\<not> expiration (timer_heap (ex_state 1012) 0)
      <s currentTime (wheels (ex_state 1012) ! 0) + tick (wheels (ex_state 1012) ! 0)"
    by (simp add: ex_state_simps w5_def word_sless_alt)
  have h4: "expiration (timer_heap (ex_state 1012) 0)
      <s currentTime (wheels (ex_state 1012) ! 0) + interval (wheels (ex_state 1012) ! 0)"
    by (simp add: ex_state_simps w5_def word_sless_alt)
  have b: "buckets (wheels (ex_state 1012) ! 0) !
      nat ((sint (expiration (timer_heap (ex_state 1012) 0))
              div sint (tick (wheels (ex_state 1012) ! 0)))
            mod sint (wheelSize (wheels (ex_state 1012) ! 0))) = (0, 10)"
    by (simp add: ex_state_simps w5_def)
  have h5: "\<not> mu (bucket_heap (ex_state 1012) (0, 10))"
    by (simp add: ex_state_simps newBucket_def)
  have tr: "truncate 1012 5 = 1010"
    by (simp add: truncate_def rem_def signed_modulo_int_def word_sle_eq)
  have e: "expiration (timer_heap (ex_state 1012) 0) = 1012"
    and tk: "tick (wheels (ex_state 1012) ! 0) = 5"
    by (simp_all add: ex_state_simps w5_def)
  note th = add_places_in_slot [OF h1 h2 h3 h4, unfolded b, OF h5, unfolded e tk tr]
  then obtain s' s1 where r: "add 0 0 (ex_state 1012) = Some (Inr (True, s'))"
    and l: "timers (bucket_heap s' (0, 10))
        = timers (bucket_heap (ex_state 1012) (0, 10)) @ [(next_elem (ex_state 1012), 0)]"
    and g: "getBucket s' 0 = Some (0, 10)" and x: "Expiration s' (0, 10) = 1010"
    and q: "queue s' = (if fst (SetExpiration (0, 10) 1010 s1)
                   then queue (ex_state 1012) @ [((0, 10), 1010)] else queue (ex_state 1012))"
    and c: "fst (SetExpiration (0, 10) 1010 s1) \<longleftrightarrow> Expiration (ex_state 1012) (0, 10) \<noteq> 1010"
    by blast
  from c have "fst (SetExpiration (0, 10) 1010 s1)"
    by (simp add: Expiration_def ex_state_simps newBucket_def)
  with q have q': "queue s' = [((0, 10), 1010)]" by (simp add: ex_state_simps)
  from l have l': "timers (bucket_heap s' (0, 10)) = [(0, 0)]"
    by (simp add: ex_state_simps newBucket_def)
  have h3': "\<not> (1012 :: i64) <s 1000 + 5" and h4': "(1012 :: i64) <s 1000 + 60"
    by (simp_all add: word_sless_alt)
  from h1 h2 h3' h4' h5 r l' g x q' show ?thesis by blast
qed

section \<open>Delegation to overflow levels\<close>

lemma chain_ok_hd: "chain_ok (tw # rest) \<Longrightarrow> level_ok tw"
  by (cases rest) simp_all

lemma chain_ok_nth:
  assumes "chain_ok (drop k ws)" "k < length ws"
  shows "level_ok (ws ! k)"
  using assms chain_ok_hd [of "ws ! k" "drop (Suc k) ws"] by (simp add: Cons_nth_drop_Suc)

lemma chain_ok_Suc:
  assumes "chain_ok (drop k ws)" "Suc k < length ws"
  shows "chain_ok (drop (Suc k) ws)" "tick (ws ! Suc k) = interval (ws ! k)"
    "wheelSize (ws ! Suc k) = wheelSize (ws ! k)" "currentTime (ws ! Suc k) \<le>s currentTime (ws ! k)"
proof -
  have "drop k ws = ws ! k # ws ! Suc k # drop (Suc (Suc k)) ws"
    using assms(2) by (simp add: Cons_nth_drop_Suc Suc_lessD)
  with assms(1) have "level_ok (ws ! k) \<and> tick (ws ! Suc k) = interval (ws ! k)
      \<and> wheelSize (ws ! Suc k) = wheelSize (ws ! k)
      \<and> currentTime (ws ! Suc k) \<le>s currentTime (ws ! k)
      \<and> chain_ok (ws ! Suc k # drop (Suc (Suc k)) ws)"
    by simp
  then show "chain_ok (drop (Suc k) ws)" "tick (ws ! Suc k) = interval (ws ! k)"
    "wheelSize (ws ! Suc k) = wheelSize (ws ! k)" "currentTime (ws ! Suc k) \<le>s currentTime (ws ! k)"
    using assms(2) by (simp_all add: Cons_nth_drop_Suc)
qed

lemma chain_ok_Cons:
  assumes "level_ok tw" "chain_ok rest"
    and "rest \<noteq> [] \<Longrightarrow> tick (hd rest) = interval tw \<and> wheelSize (hd rest) = wheelSize tw
        \<and> currentTime (hd rest) \<le>s currentTime tw"
  shows "chain_ok (tw # rest)"
  using assms by (cases rest) simp_all

lemma delegate_bounds:
  assumes ok: "level_ok tw" and two: "2 \<le> sint (wheelSize tw)"
    and hi: "\<not> e <s currentTime tw + interval tw"
  shows "sint (tick tw) < sint (interval tw)" "sint (interval tw) \<le> sint e"
    "sint (currentTime tw) + sint (interval tw) \<le> sint e"
proof -
  from ok have t: "0 < sint (tick tw)"
    and i: "sint (interval tw) = sint (tick tw) * sint (wheelSize tw)"
    and c: "0 \<le> sint (currentTime tw)"
    by (simp_all add: level_ok_def)
  from t two have "sint (tick tw) * 2 \<le> sint (tick tw) * sint (wheelSize tw)"
    by (intro mult_left_mono) simp_all
  with t i show "sint (tick tw) < sint (interval tw)" by linarith
  from hi show "sint (currentTime tw) + sint (interval tw) \<le> sint e"
    by (simp add: word_sless_alt level_ok_sums [OF ok])
  with c show "sint (interval tw) \<le> sint e" by linarith
qed

lemma newTimeWheel_overflow:
  assumes ok: "level_ok tw" and hi: "\<not> e <s currentTime tw + interval tw"
    and fits: "sint e * sint (wheelSize tw) < 2 ^ 63"
  shows "\<exists>ow s1. newTimeWheel (interval tw) (wheelSize tw) (currentTime tw) s = Inr (ow, s1)
     \<and> level_ok ow \<and> tick ow = interval tw \<and> wheelSize ow = wheelSize tw
     \<and> currentTime ow \<le>s currentTime tw
     \<and> timer_heap s1 = timer_heap s \<and> wheels s1 = wheels s
     \<and> (unlocked s \<longrightarrow> unlocked s1)"
proof -
  let ?T = "sint (tick tw)" and ?S = "sint (wheelSize tw)" and ?I = "sint (interval tw)"
  let ?c = "sint (currentTime tw)"
  from ok have t: "0 < ?T" and z: "0 < ?S" and i: "?I = ?T * ?S" and c: "0 \<le> ?c"
    and mk: "\<not> makeslice_panics (wheelSize tw)"
    by (simp_all add: level_ok_def)
  have ipos: "0 < ?I" using t z i by simp
  from hi have ce: "?c + ?I \<le> sint e"
    by (simp add: word_sless_alt level_ok_sums [OF ok])
  have "(?c + ?I) * ?S \<le> sint e * ?S"
    using ce z by (intro mult_right_mono) simp_all
  moreover have "?c * 1 \<le> ?c * ?S" using c z by (intro mult_left_mono) simp_all
  ultimately have sum: "?c + ?I * ?S \<le> sint e * ?S"
    by (simp add: distrib_right)
  have prod0: "0 \<le> ?I * ?S" using ipos z by simp
  have prod: "sint (interval tw * wheelSize tw) = ?I * ?S"
    using prod0 sum c fits by (intro sint_mul_ok) linarith+
  have tr: "0 \<le> sint (truncate (currentTime tw) (interval tw))"
    "sint (truncate (currentTime tw) (interval tw)) \<le> ?c"
    using truncate_le [OF ipos c] by simp_all
  define ow where "ow = \<lparr>tick = interval tw, wheelSize = wheelSize tw,
      interval = interval tw * wheelSize tw,
      currentTime = truncate (currentTime tw) (interval tw),
      buckets = map (Pair (length (wheels s))) [0..<nat (sint (wheelSize tw))]\<rparr>"
  define s1 where "s1 = s\<lparr>bucket_heap :=
      (\<lambda>b. if fst b = length (wheels s) \<and> snd b < nat (sint (wheelSize tw)) then newBucket
           else bucket_heap s b)\<rparr>"
  have "newTimeWheel (interval tw) (wheelSize tw) (currentTime tw) s = Inr (ow, s1)"
    using mk by (simp add: newTimeWheel_def Let_def ow_def s1_def)
  moreover have "level_ok ow"
    using ipos z prod tr sum fits mk by (simp add: level_ok_def ow_def)
  moreover have "currentTime ow \<le>s currentTime tw"
    using tr by (simp add: ow_def word_sle_eq)
  moreover have "unlocked s \<longrightarrow> unlocked s1"
    by (simp add: unlocked_def s1_def newBucket_def)
  ultimately show ?thesis by (simp add: ow_def s1_def)
qed


lemma add_place_unlocked:
  assumes "Add b t s = Inr s1" "unlocked s"
  shows "unlocked (if c then Offer b x (snd (SetExpiration b x s1)) else snd (SetExpiration b x s1))"
    and "wheels (if c then Offer b x (snd (SetExpiration b x s1)) else snd (SetExpiration b x s1))
      = wheels s"
  using assms
  by (auto simp: Add_eq unlocked_def SetExpiration_def Offer_def split: if_splits)

lemma add_returns:
  assumes "k < length (wheels s)" and "chain_ok (drop k (wheels s))"
    and "2 \<le> sint (wheelSize (wheels s ! k))"
    and "sint (expiration (timer_heap s t)) * sint (wheelSize (wheels s ! k)) < 2 ^ 63"
    and "unlocked s"
  shows "\<exists>r s' new. add k t s = Some (Inr (r, s'))
     \<and> (r \<longleftrightarrow> \<not> expiration (timer_heap s t) <s currentTime (wheels s ! k) + tick (wheels s ! k))
     \<and> wheels s' = wheels s @ new \<and> chain_ok (drop k (wheels s')) \<and> unlocked s'"
  using assms
proof (induction "nat (sint (expiration (timer_heap s t)) - sint (tick (wheels s ! k)))"
    arbitrary: k s rule: less_induct)
  case less
  let ?tw = "wheels s ! k" and ?e = "expiration (timer_heap s t)"
  note k = \<open>k < length (wheels s)\<close> and chain = \<open>chain_ok (drop k (wheels s))\<close>
  have ok: "level_ok ?tw" using chain k by (rule chain_ok_nth)
  show ?case
  proof (cases "?e <s currentTime ?tw + tick ?tw")
    case True
    from add_due [OF k True] chain less.prems(5) True show ?thesis by auto
  next
    case lo: False
    show ?thesis
    proof (cases "?e <s currentTime ?tw + interval ?tw")
      case True
      have "\<not> mu (bucket_heap s b)" for b
        using less.prems(5) unfolding unlocked_def by blast
      from add_place [OF k ok lo True this] obtain s1 s' where
        s1: "Add (buckets ?tw ! nat ((sint ?e div sint (tick ?tw)) mod sint (wheelSize ?tw))) t s
            = Inr s1"
        and s': "add k t s = Some (Inr (True, s'))"
        and s'_def: "s' = (if Expiration s (buckets ?tw ! nat ((sint ?e div sint (tick ?tw)) mod sint (wheelSize ?tw))) \<noteq> truncate ?e (tick ?tw)
          then Offer (buckets ?tw ! nat ((sint ?e div sint (tick ?tw)) mod sint (wheelSize ?tw))) (truncate ?e (tick ?tw)) (snd (SetExpiration (buckets ?tw ! nat ((sint ?e div sint (tick ?tw)) mod sint (wheelSize ?tw))) (truncate ?e (tick ?tw)) s1))
          else snd (SetExpiration (buckets ?tw ! nat ((sint ?e div sint (tick ?tw)) mod sint (wheelSize ?tw))) (truncate ?e (tick ?tw)) s1))"
        by blast
      have "unlocked s'" "wheels s' = wheels s"
        unfolding s'_def using add_place_unlocked [OF s1 less.prems(5)] by blast+
      with s' lo chain show ?thesis by auto
    next
      case hi: False
      note b = delegate_bounds [OF ok less.prems(3) hi]
      have dec: "nat (sint ?e - sint (interval ?tw)) < nat (sint ?e - sint (tick ?tw))"
        using b by linarith
      show ?thesis
      proof (cases "Suc k < length (wheels s)")
        case True
        note nx = chain_ok_Suc [OF chain True]
        have "\<exists>r s' new. add (Suc k) t s = Some (Inr (r, s'))
           \<and> (r \<longleftrightarrow> \<not> ?e <s currentTime (wheels s ! Suc k) + tick (wheels s ! Suc k))
           \<and> wheels s' = wheels s @ new \<and> chain_ok (drop (Suc k) (wheels s')) \<and> unlocked s'"
          using dec True nx less.prems by (intro less.hyps) simp_all
        then obtain r s' new where r: "add (Suc k) t s = Some (Inr (r, s'))"
          and riff: "r \<longleftrightarrow> \<not> ?e <s currentTime (wheels s ! Suc k) + tick (wheels s ! Suc k)"
          and ws: "wheels s' = wheels s @ new" and ch: "chain_ok (drop (Suc k) (wheels s'))"
          and un: "unlocked s'"
          by blast
        have ok': "level_ok (wheels s ! Suc k)" using nx(1) True by (rule chain_ok_nth)
        have "sint (currentTime (wheels s ! Suc k)) + sint (tick (wheels s ! Suc k)) \<le> sint ?e"
          using nx(2,4) b(3) by (simp add: word_sle_eq)
        then have r: "add (Suc k) t s = Some (Inr (True, s'))"
          using r riff by (simp add: word_sless_alt level_ok_sums [OF ok'])
        have "drop k (wheels s') = ?tw # drop (Suc k) (wheels s')"
          using k ws by (simp add: Cons_nth_drop_Suc [symmetric] nth_append)
        moreover have "drop (Suc k) (wheels s') \<noteq> []" "hd (drop (Suc k) (wheels s')) = wheels s ! Suc k"
          using True ws by (simp_all add: hd_drop_conv_nth nth_append)
        ultimately have "chain_ok (drop k (wheels s'))"
          using ok ch nx by (simp add: chain_ok_Cons)
        with r ws un lo add_delegate_old [OF True lo hi] show ?thesis by auto
      next
        case False
        with k have last: "Suc k = length (wheels s)" by simp
        from newTimeWheel_overflow [OF ok hi less.prems(4), of s] obtain ow s1 where
          new: "newTimeWheel (interval ?tw) (wheelSize ?tw) (currentTime ?tw) s = Inr (ow, s1)"
          and ok': "level_ok ow" and tk: "tick ow = interval ?tw" and sz: "wheelSize ow = wheelSize ?tw"
          and ct: "currentTime ow \<le>s currentTime ?tw"
          and th: "timer_heap s1 = timer_heap s" and ws1: "wheels s1 = wheels s"
          and un1: "unlocked s1"
          using less.prems(5) by blast
        let ?s2 = "s1\<lparr>wheels := wheels s1 @ [ow]\<rparr>"
        have nth: "(wheels s @ [ow]) ! Suc k = ow" "(wheels s @ [ow]) ! k = ?tw"
          using last k by (simp_all add: nth_append)
        have "\<exists>r s' new. add (Suc k) t ?s2 = Some (Inr (r, s'))
           \<and> (r \<longleftrightarrow> \<not> expiration (timer_heap ?s2 t) <s currentTime (wheels ?s2 ! Suc k) + tick (wheels ?s2 ! Suc k))
           \<and> wheels s' = wheels ?s2 @ new \<and> chain_ok (drop (Suc k) (wheels s')) \<and> unlocked s'"
        proof (intro less.hyps)
          show "nat (sint (expiration (timer_heap ?s2 t)) - sint (tick (wheels ?s2 ! Suc k)))
              < nat (sint ?e - sint (tick ?tw))"
            using dec by (simp add: ws1 nth th tk)
          show "Suc k < length (wheels ?s2)" using last by (simp add: ws1)
          show "chain_ok (drop (Suc k) (wheels ?s2))" using last ok' by (simp add: ws1)
          show "2 \<le> sint (wheelSize (wheels ?s2 ! Suc k))"
            using less.prems(3) by (simp add: ws1 nth sz)
          show "sint (expiration (timer_heap ?s2 t)) * sint (wheelSize (wheels ?s2 ! Suc k)) < 2 ^ 63"
            using less.prems(4) by (simp add: ws1 nth sz th)
          show "unlocked ?s2" using un1 by (simp add: unlocked_def)
        qed
        then have "\<exists>r s' new. add (Suc k) t ?s2 = Some (Inr (r, s'))
           \<and> (r \<longleftrightarrow> \<not> ?e <s currentTime ow + tick ow)
           \<and> wheels s' = (wheels s @ [ow]) @ new \<and> chain_ok (drop (Suc k) (wheels s')) \<and> unlocked s'"
          by (simp add: ws1 nth th)
        then obtain r s' new where r: "add (Suc k) t ?s2 = Some (Inr (r, s'))"
          and riff: "r \<longleftrightarrow> \<not> ?e <s currentTime ow + tick ow"
          and ws: "wheels s' = (wheels s @ [ow]) @ new" and ch: "chain_ok (drop (Suc k) (wheels s'))"
          and un: "unlocked s'"
          by blast
        have "sint (currentTime ow) + sint (tick ow) \<le> sint ?e"
          using tk ct b(3) by (simp add: word_sle_eq)
        then have r: "add (Suc k) t ?s2 = Some (Inr (True, s'))"
          using r riff by (simp add: word_sless_alt level_ok_sums [OF ok'])
        have "drop k (wheels s') = ?tw # drop (Suc k) (wheels s')"
          using k ws by (simp add: Cons_nth_drop_Suc [symmetric] nth_append)
        moreover have "drop (Suc k) (wheels s') \<noteq> []" "hd (drop (Suc k) (wheels s')) = ow"
          using last ws by (simp_all add: hd_drop_conv_nth nth_append)
        ultimately have "chain_ok (drop k (wheels s'))"
          using ok ch tk sz ct by (simp add: chain_ok_Cons)
        with r ws un lo add_delegate_new [OF last lo hi new] show ?thesis by auto
      qed
    qed
  qed
qed

section \<open>The result of add, and its termination\<close>

lemma chain_ok_ex: "chain_ok (drop 0 (wheels (ex_state e)))"
  by (simp add: ex_state_simps level_ok_w5)

text \<open>
  The result of \<^verbatim>\<open>add\<close> within the range of \<^verbatim>\<open>int64\<close>. On a level \<open>k\<close> whose chain of
  overflow levels satisfies the construction invariant, with at least two slots, no bucket locked, and an expiration \<open>e\<close> with
  \<open>e * slotCount\<close> in the range of \<^verbatim>\<open>int64\<close>: \<^verbatim>\<open>add\<close> returns, and it returns false
  exactly when \<open>e < currentTime + tick\<close> at level \<open>k\<close>. In particular the result is
  true whenever the timer is delegated (\<open>e\<close> is at least \<open>currentTime + interval\<close>):
  the call on the overflow chain, of which it is the result, never returns false.
  The levels that exist are left as they are, new ones are appended, and the
  invariant holds again afterwards.
\<close>

theorem add_false_iff_due:
  assumes "k < length (wheels s)" and "chain_ok (drop k (wheels s))"
    and "2 \<le> sint (wheelSize (wheels s ! k))"
    and "sint (expiration (timer_heap s t)) * sint (wheelSize (wheels s ! k)) < 2 ^ 63"
    and "unlocked s"
  shows "\<exists>r s' new. add k t s = Some (Inr (r, s'))
     \<and> (\<not> r \<longleftrightarrow> expiration (timer_heap s t) <s currentTime (wheels s ! k) + tick (wheels s ! k))
     \<and> (\<not> expiration (timer_heap s t) <s currentTime (wheels s ! k) + interval (wheels s ! k)
          \<longrightarrow> r)
     \<and> wheels s' = wheels s @ new \<and> chain_ok (drop k (wheels s')) \<and> unlocked s'"
proof -
  have ok: "level_ok (wheels s ! k)" using assms(2,1) by (rule chain_ok_nth)
  have "expiration (timer_heap s t) <s currentTime (wheels s ! k) + tick (wheels s ! k)
      \<Longrightarrow> expiration (timer_heap s t) <s currentTime (wheels s ! k) + interval (wheels s ! k)"
    using level_ok_sums [OF ok] by (simp add: word_sless_alt)
  with add_returns [OF assms] show ?thesis by blast
qed

theorem add_false_iff_due_witness:
  "(0::nat) < length (wheels (ex_state 2000)) \<and> chain_ok (drop 0 (wheels (ex_state 2000)))
   \<and> 2 \<le> sint (wheelSize (wheels (ex_state 2000) ! 0))
   \<and> sint (expiration (timer_heap (ex_state 2000) 0)) * sint (wheelSize (wheels (ex_state 2000) ! 0))
        < 2 ^ 63
   \<and> unlocked (ex_state 2000)
   \<and> \<not> (2000 :: i64) <s 1000 + 5 \<and> \<not> (2000 :: i64) <s 1000 + 60
   \<and> (\<exists>s'. add 0 0 (ex_state 2000) = Some (Inr (True, s')))"
proof -
  have h1: "(0::nat) < length (wheels (ex_state 2000))" by (simp add: ex_state_simps)
  have h2: "chain_ok (drop 0 (wheels (ex_state 2000)))" by (rule chain_ok_ex)
  have h3: "2 \<le> sint (wheelSize (wheels (ex_state 2000) ! 0))"
    by (simp add: ex_state_simps w5_def)
  have h4: "sint (expiration (timer_heap (ex_state 2000) 0))
      * sint (wheelSize (wheels (ex_state 2000) ! 0)) < 2 ^ 63"
    by (simp add: ex_state_simps w5_def)
  have h5: "unlocked (ex_state 2000)" by (simp add: ex_state_simps)
  have e: "expiration (timer_heap (ex_state 2000) 0) = 2000"
    and c: "currentTime (wheels (ex_state 2000) ! 0) = 1000"
    and tk: "tick (wheels (ex_state 2000) ! 0) = 5"
    and iv: "interval (wheels (ex_state 2000) ! 0) = 60"
    by (simp_all add: ex_state_simps w5_def)
  have lo: "\<not> (2000 :: i64) <s 1000 + 5" and hi: "\<not> (2000 :: i64) <s 1000 + 60"
    by (simp_all add: word_sless_alt)
  from add_false_iff_due [OF h1 h2 h3 h4 h5, unfolded e c tk iv] hi
  obtain r s' where "add 0 0 (ex_state 2000) = Some (Inr (r, s'))" and r by blast
  then have "\<exists>s'. add 0 0 (ex_state 2000) = Some (Inr (True, s'))" by auto
  with h1 h2 h3 h4 h5 lo hi show ?thesis by blast
qed

section \<open>Wrap-around of the interval\<close>

lemma stuck_step:
  assumes "stuck k t s"
  shows "\<exists>s'. add k t s = add (Suc k) t s' \<and> stuck (Suc k) t s'"
proof -
  let ?tw = "wheels s ! k"
  from assms have last: "Suc k = length (wheels s)" and tk: "tick ?tw = 0"
    and iv: "interval ?tw = 0" and sz: "\<not> makeslice_panics (wheelSize ?tw)"
    and c: "\<not> expiration (timer_heap s t) <s currentTime ?tw"
    by (simp_all add: stuck_def)
  define ow where "ow = \<lparr>tick = 0, wheelSize = wheelSize ?tw, interval = 0,
      currentTime = currentTime ?tw,
      buckets = map (Pair (length (wheels s))) [0..<nat (sint (wheelSize ?tw))]\<rparr>"
  define s1 where "s1 = s\<lparr>bucket_heap :=
      (\<lambda>b. if fst b = length (wheels s) \<and> snd b < nat (sint (wheelSize ?tw)) then newBucket
           else bucket_heap s b)\<rparr>"
  have new: "newTimeWheel (interval ?tw) (wheelSize ?tw) (currentTime ?tw) s = Inr (ow, s1)"
    using sz by (simp add: newTimeWheel_def Let_def iv truncate_def word_sle_eq ow_def s1_def)
  have "add k t s = add (Suc k) t (s1\<lparr>wheels := wheels s1 @ [ow]\<rparr>)"
    using last c new by (intro add_delegate_new) (simp_all add: tk iv)
  moreover have "stuck (Suc k) t (s1\<lparr>wheels := wheels s1 @ [ow]\<rparr>)"
    using last sz c by (simp add: stuck_def s1_def ow_def nth_append)
  ultimately show ?thesis by blast
qed

lemma add_stuck:
  assumes "add k t s = Some y"
  shows "\<not> stuck k t s"
proof (rule add.raw_induct [where P = "\<lambda>k t s y. \<not> stuck k t s", OF _ assms], goal_cases)
  case (1 add' k t s y)
  show ?case
  proof
    assume st: "stuck k t s"
    let ?tw = "wheels s ! k"
    from st have last: "Suc k = length (wheels s)" and tk: "tick ?tw = 0"
      and iv: "interval ?tw = 0" and sz: "\<not> makeslice_panics (wheelSize ?tw)"
      and c: "\<not> expiration (timer_heap s t) <s currentTime ?tw"
      by (simp_all add: stuck_def)
    define ow where "ow = \<lparr>tick = 0, wheelSize = wheelSize ?tw, interval = 0,
        currentTime = currentTime ?tw,
        buckets = map (Pair (length (wheels s))) [0..<nat (sint (wheelSize ?tw))]\<rparr>"
    define s1 where "s1 = s\<lparr>bucket_heap :=
        (\<lambda>b. if fst b = length (wheels s) \<and> snd b < nat (sint (wheelSize ?tw)) then newBucket
             else bucket_heap s b)\<rparr>"
    have new: "newTimeWheel 0 (wheelSize ?tw) (currentTime ?tw) s = Inr (ow, s1)"
      using sz by (simp add: newTimeWheel_def Let_def truncate_def word_sle_eq ow_def s1_def)
    have "add' (Suc k) t (s1\<lparr>wheels := wheels s1 @ [ow]\<rparr>) = Some y"
      using "1"(2) last c new by (simp add: Let_def tk iv)
    then have "\<not> stuck (Suc k) t (s1\<lparr>wheels := wheels s1 @ [ow]\<rparr>)"
      by (rule "1"(1))
    moreover have "stuck (Suc k) t (s1\<lparr>wheels := wheels s1 @ [ow]\<rparr>)"
      using last sz c by (simp add: stuck_def s1_def ow_def nth_append)
    ultimately show False by simp
  qed
qed

lemma stuck_diverges: "stuck k t s \<Longrightarrow> add k t s = None"
  using add_stuck [of k t s] by (cases "add k t s") auto

lemma add_grow:
  assumes "Suc k = length (wheels s)"
    and "\<not> expiration (timer_heap s t) <s currentTime (wheels s ! k) + tick (wheels s ! k)"
    and "\<not> expiration (timer_heap s t) <s currentTime (wheels s ! k) + interval (wheels s ! k)"
    and "\<not> makeslice_panics (wheelSize (wheels s ! k))"
  obtains s' where "add k t s = add (Suc k) t s'" "length (wheels s') = Suc (Suc k)"
    "timer_heap s' = timer_heap s"
    "tick (wheels s' ! Suc k) = interval (wheels s ! k)"
    "wheelSize (wheels s' ! Suc k) = wheelSize (wheels s ! k)"
    "interval (wheels s' ! Suc k) = interval (wheels s ! k) * wheelSize (wheels s ! k)"
    "currentTime (wheels s' ! Suc k) = truncate (currentTime (wheels s ! k)) (interval (wheels s ! k))"
proof -
  let ?tw = "wheels s ! k"
  define ow where "ow = \<lparr>tick = interval ?tw, wheelSize = wheelSize ?tw,
      interval = interval ?tw * wheelSize ?tw,
      currentTime = truncate (currentTime ?tw) (interval ?tw),
      buckets = map (Pair (length (wheels s))) [0..<nat (sint (wheelSize ?tw))]\<rparr>"
  define s1 where "s1 = s\<lparr>bucket_heap :=
      (\<lambda>b. if fst b = length (wheels s) \<and> snd b < nat (sint (wheelSize ?tw)) then newBucket
           else bucket_heap s b)\<rparr>"
  have new: "newTimeWheel (interval ?tw) (wheelSize ?tw) (currentTime ?tw) s = Inr (ow, s1)"
    using assms(4) by (simp add: newTimeWheel_def Let_def ow_def s1_def)
  have "add k t s = add (Suc k) t (s1\<lparr>wheels := wheels s1 @ [ow]\<rparr>)"
    using assms(1-3) new by (rule add_delegate_new)
  moreover have "length (wheels (s1\<lparr>wheels := wheels s1 @ [ow]\<rparr>)) = Suc (Suc k)"
    "timer_heap (s1\<lparr>wheels := wheels s1 @ [ow]\<rparr>) = timer_heap s"
    "wheels (s1\<lparr>wheels := wheels s1 @ [ow]\<rparr>) ! Suc k = ow"
    using assms(1) by (simp_all add: s1_def nth_append)
  ultimately show ?thesis
    by (intro that [of "s1\<lparr>wheels := wheels s1 @ [ow]\<rparr>"]) (simp_all add: ow_def)
qed


lemma wide_state_New: "New 1000000 2097152 1790000000000 = Inr wide_state"
proof -
  have "quo 1000000 1000000 = 1" by (simp add: quo_def signed_divide_int_def)
  moreover have "truncate 1790000000000 1 = 1790000000000"
    by (simp add: truncate_def rem_def signed_modulo_int_def word_sle_eq)
  ultimately show ?thesis
    by (simp add: New_eq wide_state_def word_sless_alt makeslice_panics_def ptrSize_def
        maxAlloc_def)
qed

lemma add_grow_vals:
  assumes "length (wheels s) = Suc k" and "expiration (timer_heap s t) = e"
    and "tick (wheels s ! k) = T" and "interval (wheels s ! k) = I"
    and "wheelSize (wheels s ! k) = S" and "currentTime (wheels s ! k) = c"
    and "\<not> e <s c + T" and "\<not> e <s c + I" and "\<not> makeslice_panics S"
  shows "\<exists>s'. add k t s = add (Suc k) t s' \<and> length (wheels s') = Suc (Suc k)
     \<and> expiration (timer_heap s' t) = e \<and> tick (wheels s' ! Suc k) = I
     \<and> interval (wheels s' ! Suc k) = I * S \<and> wheelSize (wheels s' ! Suc k) = S
     \<and> currentTime (wheels s' ! Suc k) = truncate c I"
proof -
  have "Suc k = length (wheels s)" using assms(1) by simp
  moreover have "\<not> expiration (timer_heap s t) <s currentTime (wheels s ! k) + tick (wheels s ! k)"
    "\<not> expiration (timer_heap s t) <s currentTime (wheels s ! k) + interval (wheels s ! k)"
    "\<not> makeslice_panics (wheelSize (wheels s ! k))"
    using assms by simp_all
  ultimately obtain s' where "add k t s = add (Suc k) t s'" "length (wheels s') = Suc (Suc k)"
    "timer_heap s' = timer_heap s"
    "tick (wheels s' ! Suc k) = interval (wheels s ! k)"
    "wheelSize (wheels s' ! Suc k) = wheelSize (wheels s ! k)"
    "interval (wheels s' ! Suc k) = interval (wheels s ! k) * wheelSize (wheels s ! k)"
    "currentTime (wheels s' ! Suc k) = truncate (currentTime (wheels s ! k)) (interval (wheels s ! k))"
    by (rule add_grow)
  then show ?thesis using assms(2-6) by auto
qed

lemma wide_state_diverges: "AfterFunc 6208000000000 wide_state = None"
proof -
  define s0 where "s0 = wide_state\<lparr>timer_heap := (timer_heap wide_state)
      (0 := \<lparr>expiration = 6208000000000, bucket = None, element = None\<rparr>), next_timer := Suc 0\<rparr>"
  have l0: "length (wheels s0) = Suc 0" "expiration (timer_heap s0 0) = 6208000000000"
    "tick (wheels s0 ! 0) = 1" "interval (wheels s0 ! 0) = 2097152"
    "wheelSize (wheels s0 ! 0) = 2097152" "currentTime (wheels s0 ! 0) = 1790000000000"
    by (simp_all add: s0_def wide_state_def)
  have tr: "truncate 1790000000000 2097152 = 1789998923776"
    "truncate 1789998923776 4398046511104 = 0"
    "truncate 0 9223372036854775808 = 0" "truncate 0 0 = 0"
    by (simp_all add: truncate_def rem_def signed_modulo_int_def word_sle_eq)
  have "\<exists>s1. add 0 0 s0 = add (Suc 0) 0 s1 \<and> length (wheels s1) = Suc (Suc 0)
     \<and> expiration (timer_heap s1 0) = 6208000000000 \<and> tick (wheels s1 ! Suc 0) = 2097152
     \<and> interval (wheels s1 ! Suc 0) = 2097152 * 2097152 \<and> wheelSize (wheels s1 ! Suc 0) = 2097152
     \<and> currentTime (wheels s1 ! Suc 0) = truncate 1790000000000 2097152"
    by (rule add_grow_vals [OF l0]) (simp_all add: word_sless_alt makeslice_panics_def ptrSize_def maxAlloc_def)
  then obtain s1 where a1: "add 0 0 s0 = add (Suc 0) 0 s1"
    and l1: "length (wheels s1) = Suc (Suc 0)" "expiration (timer_heap s1 0) = 6208000000000"
      "tick (wheels s1 ! Suc 0) = 2097152" "interval (wheels s1 ! Suc 0) = 4398046511104"
      "wheelSize (wheels s1 ! Suc 0) = 2097152" "currentTime (wheels s1 ! Suc 0) = 1789998923776"
    by (auto simp: tr)
  have "\<exists>s2. add (Suc 0) 0 s1 = add (Suc (Suc 0)) 0 s2 \<and> length (wheels s2) = Suc (Suc (Suc 0))
     \<and> expiration (timer_heap s2 0) = 6208000000000 \<and> tick (wheels s2 ! Suc (Suc 0)) = 4398046511104
     \<and> interval (wheels s2 ! Suc (Suc 0)) = 4398046511104 * 2097152
     \<and> wheelSize (wheels s2 ! Suc (Suc 0)) = 2097152
     \<and> currentTime (wheels s2 ! Suc (Suc 0)) = truncate 1789998923776 4398046511104"
    by (rule add_grow_vals [OF l1]) (simp_all add: word_sless_alt makeslice_panics_def ptrSize_def maxAlloc_def)
  then obtain s2 where a2: "add (Suc 0) 0 s1 = add (Suc (Suc 0)) 0 s2"
    and l2: "length (wheels s2) = Suc (Suc (Suc 0))" "expiration (timer_heap s2 0) = 6208000000000"
      "tick (wheels s2 ! Suc (Suc 0)) = 4398046511104"
      "interval (wheels s2 ! Suc (Suc 0)) = 9223372036854775808"
      "wheelSize (wheels s2 ! Suc (Suc 0)) = 2097152" "currentTime (wheels s2 ! Suc (Suc 0)) = 0"
    by (auto simp: tr)
  have "\<exists>s3. add (Suc (Suc 0)) 0 s2 = add (Suc (Suc (Suc 0))) 0 s3
     \<and> length (wheels s3) = Suc (Suc (Suc (Suc 0)))
     \<and> expiration (timer_heap s3 0) = 6208000000000
     \<and> tick (wheels s3 ! Suc (Suc (Suc 0))) = 9223372036854775808
     \<and> interval (wheels s3 ! Suc (Suc (Suc 0))) = 9223372036854775808 * 2097152
     \<and> wheelSize (wheels s3 ! Suc (Suc (Suc 0))) = 2097152
     \<and> currentTime (wheels s3 ! Suc (Suc (Suc 0))) = truncate 0 9223372036854775808"
    by (rule add_grow_vals [OF l2]) (simp_all add: word_sless_alt makeslice_panics_def ptrSize_def maxAlloc_def)
  then obtain s3 where a3: "add (Suc (Suc 0)) 0 s2 = add (Suc (Suc (Suc 0))) 0 s3"
    and l3: "length (wheels s3) = Suc (Suc (Suc (Suc 0)))"
      "expiration (timer_heap s3 0) = 6208000000000"
      "tick (wheels s3 ! Suc (Suc (Suc 0))) = 9223372036854775808"
      "interval (wheels s3 ! Suc (Suc (Suc 0))) = 0"
      "wheelSize (wheels s3 ! Suc (Suc (Suc 0))) = 2097152"
      "currentTime (wheels s3 ! Suc (Suc (Suc 0))) = 0"
    by (auto simp: tr)
  have "\<exists>s4. add (Suc (Suc (Suc 0))) 0 s3 = add (Suc (Suc (Suc (Suc 0)))) 0 s4
     \<and> length (wheels s4) = Suc (Suc (Suc (Suc (Suc 0))))
     \<and> expiration (timer_heap s4 0) = 6208000000000
     \<and> tick (wheels s4 ! Suc (Suc (Suc (Suc 0)))) = 0
     \<and> interval (wheels s4 ! Suc (Suc (Suc (Suc 0)))) = 0 * 2097152
     \<and> wheelSize (wheels s4 ! Suc (Suc (Suc (Suc 0)))) = 2097152
     \<and> currentTime (wheels s4 ! Suc (Suc (Suc (Suc 0)))) = truncate 0 0"
    by (rule add_grow_vals [OF l3]) (simp_all add: word_sless_alt makeslice_panics_def ptrSize_def maxAlloc_def)
  then obtain s4 where a4: "add (Suc (Suc (Suc 0))) 0 s3 = add (Suc (Suc (Suc (Suc 0)))) 0 s4"
    and l4: "length (wheels s4) = Suc (Suc (Suc (Suc (Suc 0))))"
      "expiration (timer_heap s4 0) = 6208000000000"
      "tick (wheels s4 ! Suc (Suc (Suc (Suc 0)))) = 0"
      "interval (wheels s4 ! Suc (Suc (Suc (Suc 0)))) = 0"
      "wheelSize (wheels s4 ! Suc (Suc (Suc (Suc 0)))) = 2097152"
      "currentTime (wheels s4 ! Suc (Suc (Suc (Suc 0)))) = 0"
    by (auto simp: tr)
  have "stuck (Suc (Suc (Suc (Suc 0)))) 0 s4"
    unfolding stuck_def l4
    by (simp add: word_sless_alt makeslice_panics_def ptrSize_def maxAlloc_def)
  then have "add (Suc (Suc (Suc (Suc 0)))) 0 s4 = None" by (rule stuck_diverges)
  with a1 a2 a3 a4 have "add 0 0 s0 = None" by simp
  moreover have "next_timer wide_state = 0" by (simp add: wide_state_def init_state_def)
  ultimately show ?thesis
    by (simp add: AfterFunc_def newTimer_def addOrRun_def Let_def s0_def)
qed


lemma long_state_New: "New 341101000000 5200000 1790000000000 = Inr long_state"
proof -
  have "quo 341101000000 1000000 = 341101" by (simp add: quo_def signed_divide_int_def)
  moreover have "truncate 1790000000000 341101 = 1789999810912"
    by (simp add: truncate_def rem_def signed_modulo_int_def word_sle_eq)
  ultimately show ?thesis
    by (simp add: New_eq long_state_def word_sless_alt makeslice_panics_def ptrSize_def
        maxAlloc_def)
qed

lemma long_state_add:
  "map_option (map_sum id fst) (add 0 0 (snd (newTimer 3588783200000 long_state)))
     = Some (Inr False)"
proof -
  define s0 where "s0 = snd (newTimer 3588783200000 long_state)"
  have l0: "length (wheels s0) = Suc 0" "expiration (timer_heap s0 0) = 3588783200000"
    "tick (wheels s0 ! 0) = 341101" "interval (wheels s0 ! 0) = 1773725200000"
    "wheelSize (wheels s0 ! 0) = 5200000" "currentTime (wheels s0 ! 0) = 1789999810912"
    by (simp_all add: s0_def newTimer_def long_state_def init_state_def)
  have tr: "truncate 1789999810912 1773725200000 = 1773725200000"
    "truncate 1773725200000 9223371040000000000 = 0"
    by (simp_all add: truncate_def rem_def signed_modulo_int_def word_sle_eq)
  have "\<exists>s1. add 0 0 s0 = add (Suc 0) 0 s1 \<and> length (wheels s1) = Suc (Suc 0)
     \<and> expiration (timer_heap s1 0) = 3588783200000 \<and> tick (wheels s1 ! Suc 0) = 1773725200000
     \<and> interval (wheels s1 ! Suc 0) = 1773725200000 * 5200000
     \<and> wheelSize (wheels s1 ! Suc 0) = 5200000
     \<and> currentTime (wheels s1 ! Suc 0) = truncate 1789999810912 1773725200000"
    by (rule add_grow_vals [OF l0]) (simp_all add: word_sless_alt makeslice_panics_def ptrSize_def maxAlloc_def)
  then obtain s1 where a1: "add 0 0 s0 = add (Suc 0) 0 s1"
    and l1: "length (wheels s1) = Suc (Suc 0)" "expiration (timer_heap s1 0) = 3588783200000"
      "tick (wheels s1 ! Suc 0) = 1773725200000" "interval (wheels s1 ! Suc 0) = 9223371040000000000"
      "wheelSize (wheels s1 ! Suc 0) = 5200000" "currentTime (wheels s1 ! Suc 0) = 1773725200000"
    by (auto simp: tr)
  have "\<exists>s2. add (Suc 0) 0 s1 = add (Suc (Suc 0)) 0 s2 \<and> length (wheels s2) = Suc (Suc (Suc 0))
     \<and> expiration (timer_heap s2 0) = 3588783200000
     \<and> tick (wheels s2 ! Suc (Suc 0)) = 9223371040000000000
     \<and> interval (wheels s2 ! Suc (Suc 0)) = 9223371040000000000 * 5200000
     \<and> wheelSize (wheels s2 ! Suc (Suc 0)) = 5200000
     \<and> currentTime (wheels s2 ! Suc (Suc 0)) = truncate 1773725200000 9223371040000000000"
    by (rule add_grow_vals [OF l1]) (simp_all add: word_sless_alt makeslice_panics_def ptrSize_def maxAlloc_def)
  then obtain s2 where a2: "add (Suc 0) 0 s1 = add (Suc (Suc 0)) 0 s2"
    and l2: "length (wheels s2) = Suc (Suc (Suc 0))" "expiration (timer_heap s2 0) = 3588783200000"
      "tick (wheels s2 ! Suc (Suc 0)) = 9223371040000000000"
      "currentTime (wheels s2 ! Suc (Suc 0)) = 0"
    by (auto simp: tr)
  have "add (Suc (Suc 0)) 0 s2 = Some (Inr (False, s2))"
    by (rule add_due) (simp_all add: l2 word_sless_alt)
  with a1 a2 show ?thesis by (simp add: s0_def)
qed

text \<open>C1. The code returns false for a timer that is not due.
  \<^verbatim>\<open>New(341101*time.Millisecond, 5200000)\<close> at time 1790000000000 gives a level with
  an interval of 1773725200000 ms. A timer 57 years ahead is neither due at the base
  level nor within its interval, so it is delegated. The first overflow level has the
  interval 9223371040000000000, and its current time plus that interval wraps to a
  negative number, so it delegates again; the second overflow level has that interval
  as its tick and the current time 0, and there the timer looks due: \<^verbatim>\<open>add\<close> returns
  false, on the overflow chain and so at the base level.\<close>

theorem add_false_after_delegation:
  "New 341101000000 5200000 1790000000000 = Inr long_state
   \<and> \<not> (3588783200000 <s currentTime (wheels long_state ! 0) + tick (wheels long_state ! 0))
   \<and> \<not> (3588783200000 <s currentTime (wheels long_state ! 0) + interval (wheels long_state ! 0))
   \<and> expiration (timer_heap (snd (newTimer 3588783200000 long_state)) 0) = 3588783200000
   \<and> map_option (map_sum id fst) (add 0 0 (snd (newTimer 3588783200000 long_state)))
       = Some (Inr False)"
  using long_state_New long_state_add
  by (simp add: long_state_def newTimer_def init_state_def word_sless_alt)


lemma add_grow_eq:
  assumes "Suc k = length (wheels s)"
    and "\<not> expiration (timer_heap s t) <s currentTime (wheels s ! k) + tick (wheels s ! k)"
    and "\<not> expiration (timer_heap s t) <s currentTime (wheels s ! k) + interval (wheels s ! k)"
    and "\<not> makeslice_panics (wheelSize (wheels s ! k))"
    and "\<And>b. bucket_heap s b = newBucket"
  shows "add k t s = add (Suc k) t
     (s\<lparr>wheels := wheels s @
        [\<lparr>tick = interval (wheels s ! k), wheelSize = wheelSize (wheels s ! k),
          interval = interval (wheels s ! k) * wheelSize (wheels s ! k),
          currentTime = truncate (currentTime (wheels s ! k)) (interval (wheels s ! k)),
          buckets = map (Pair (Suc k)) [0..<nat (sint (wheelSize (wheels s ! k)))]\<rparr>]\<rparr>)"
proof -
  let ?tw = "wheels s ! k"
  define ow where "ow = \<lparr>tick = interval ?tw, wheelSize = wheelSize ?tw,
      interval = interval ?tw * wheelSize ?tw,
      currentTime = truncate (currentTime ?tw) (interval ?tw),
      buckets = map (Pair (Suc k)) [0..<nat (sint (wheelSize ?tw))]\<rparr>"
  have "(\<lambda>b. if fst b = length (wheels s) \<and> snd b < nat (sint (wheelSize ?tw)) then newBucket
           else bucket_heap s b) = bucket_heap s"
    using assms(5) by (simp add: fun_eq_iff)
  then have new: "newTimeWheel (interval ?tw) (wheelSize ?tw) (currentTime ?tw) s = Inr (ow, s)"
    using assms(4) assms(1) [symmetric] by (simp add: newTimeWheel_def Let_def ow_def)
  have "add k t s = add (Suc k) t (s\<lparr>wheels := wheels s @ [ow]\<rparr>)"
    using assms(1-3) new by (rule add_delegate_new)
  then show ?thesis by (simp add: ow_def)
qed

lemma long_overflow_fields:
  "length (wheels long_overflow) = Suc (Suc 0)"
  "expiration (timer_heap long_overflow 0) = 3588783200000"
  "getBucket long_overflow 0 = None" "queue long_overflow = []"
  "tick (wheels long_overflow ! Suc 0) = 1773725200000"
  "interval (wheels long_overflow ! Suc 0) = 9223371040000000000"
  "wheelSize (wheels long_overflow ! Suc 0) = 5200000"
  "currentTime (wheels long_overflow ! Suc 0) = 1773725200000"
  "bucket_heap long_overflow b = newBucket"
  by (simp_all add: long_overflow_def newTimer_def long_state_def init_state_def getBucket_def)

lemma long_state_grows:
  "add 0 0 (snd (newTimer 3588783200000 long_state)) = add (Suc 0) 0 long_overflow"
proof -
  define s0 where "s0 = snd (newTimer 3588783200000 long_state)"
  have l0: "Suc 0 = length (wheels s0)" "expiration (timer_heap s0 0) = 3588783200000"
    "tick (wheels s0 ! 0) = 341101" "interval (wheels s0 ! 0) = 1773725200000"
    "wheelSize (wheels s0 ! 0) = 5200000" "currentTime (wheels s0 ! 0) = 1789999810912"
    "\<And>b. bucket_heap s0 b = newBucket" "wheels s0 = wheels long_state"
    by (simp_all add: s0_def newTimer_def long_state_def init_state_def)
  have tr: "truncate 1789999810912 1773725200000 = 1773725200000"
    by (simp add: truncate_def rem_def signed_modulo_int_def word_sle_eq)
  have "add 0 0 s0 = add (Suc 0) 0
     (s0\<lparr>wheels := wheels s0 @
        [\<lparr>tick = interval (wheels s0 ! 0), wheelSize = wheelSize (wheels s0 ! 0),
          interval = interval (wheels s0 ! 0) * wheelSize (wheels s0 ! 0),
          currentTime = truncate (currentTime (wheels s0 ! 0)) (interval (wheels s0 ! 0)),
          buckets = map (Pair (Suc 0)) [0..<nat (sint (wheelSize (wheels s0 ! 0)))]\<rparr>]\<rparr>)"
    using l0(1) by (rule add_grow_eq)
      (simp_all add: l0(2-7) word_sless_alt makeslice_panics_def ptrSize_def maxAlloc_def)
  also have "s0\<lparr>wheels := wheels s0 @
        [\<lparr>tick = interval (wheels s0 ! 0), wheelSize = wheelSize (wheels s0 ! 0),
          interval = interval (wheels s0 ! 0) * wheelSize (wheels s0 ! 0),
          currentTime = truncate (currentTime (wheels s0 ! 0)) (interval (wheels s0 ! 0)),
          buckets = map (Pair (Suc 0)) [0..<nat (sint (wheelSize (wheels s0 ! 0)))]\<rparr>]\<rparr>
      = long_overflow"
    by (simp add: long_overflow_def s0_def newTimer_def long_state_def init_state_def tr)
  finally show ?thesis by (simp add: s0_def)
qed

lemma long_overflow_add:
  "map_option (map_sum id (\<lambda>(r, s'). (r, getBucket s' 0, queue s'))) (add (Suc 0) 0 long_overflow)
     = Some (Inr (False, None, []))"
proof -
  define s2 where "s2 = long_overflow\<lparr>wheels := wheels long_overflow @
        [\<lparr>tick = interval (wheels long_overflow ! Suc 0),
          wheelSize = wheelSize (wheels long_overflow ! Suc 0),
          interval = interval (wheels long_overflow ! Suc 0) * wheelSize (wheels long_overflow ! Suc 0),
          currentTime = truncate (currentTime (wheels long_overflow ! Suc 0))
                          (interval (wheels long_overflow ! Suc 0)),
          buckets = map (Pair (Suc (Suc 0)))
                      [0..<nat (sint (wheelSize (wheels long_overflow ! Suc 0)))]\<rparr>]\<rparr>"
  have tr: "truncate 1773725200000 9223371040000000000 = 0"
    by (simp add: truncate_def rem_def signed_modulo_int_def word_sle_eq)
  have a1: "add (Suc 0) 0 long_overflow = add (Suc (Suc 0)) 0 s2"
    unfolding s2_def using long_overflow_fields(1) [symmetric] by (rule add_grow_eq)
      (simp_all add: long_overflow_fields word_sless_alt makeslice_panics_def ptrSize_def
        maxAlloc_def)
  have f: "length (wheels s2) = Suc (Suc (Suc 0))"
    "expiration (timer_heap s2 0) = 3588783200000"
    "tick (wheels s2 ! Suc (Suc 0)) = 9223371040000000000"
    "currentTime (wheels s2 ! Suc (Suc 0)) = 0"
    "getBucket s2 0 = None" "queue s2 = []"
    using long_overflow_fields(3)
    by (simp_all add: s2_def long_overflow_fields nth_append tr getBucket_def)
  have "add (Suc (Suc 0)) 0 s2 = Some (Inr (False, s2))"
    by (rule add_due) (simp_all add: f word_sless_alt)
  with a1 show ?thesis by (simp add: f)
qed

text \<open>C4. The code does not place a timer that is within the span of a level.
  In the engine of \<^verbatim>\<open>New(341101*time.Millisecond, 5200000)\<close> at time 1790000000000,
  \<^verbatim>\<open>add\<close> of a timer 57 years ahead creates the first overflow level and calls \<^verbatim>\<open>add\<close>
  on it. On that level the expiration is at least the current time plus the tick
  and less than the current time plus the interval, but the second sum wraps around
  to a negative \<^verbatim>\<open>int64\<close>: the test of \<^verbatim>\<open>add\<close> fails, the timer is handed on instead of
  being placed, and the call returns false with the timer in no bucket and nothing
  offered to the queue.\<close>

theorem add_skips_level:
  "New 341101000000 5200000 1790000000000 = Inr long_state
   \<and> add 0 0 (snd (newTimer 3588783200000 long_state)) = add 1 0 long_overflow
   \<and> expiration (timer_heap long_overflow 0) = 3588783200000
   \<and> tick (wheels long_overflow ! 1) = 1773725200000
   \<and> interval (wheels long_overflow ! 1) = 9223371040000000000
   \<and> currentTime (wheels long_overflow ! 1) = 1773725200000
   \<and> sint (currentTime (wheels long_overflow ! 1)) + sint (tick (wheels long_overflow ! 1))
       \<le> sint (expiration (timer_heap long_overflow 0))
   \<and> sint (expiration (timer_heap long_overflow 0))
       < sint (currentTime (wheels long_overflow ! 1)) + sint (interval (wheels long_overflow ! 1))
   \<and> \<not> (expiration (timer_heap long_overflow 0)
          <s currentTime (wheels long_overflow ! 1) + interval (wheels long_overflow ! 1))
   \<and> map_option (map_sum id (\<lambda>(r, s'). (r, getBucket s' 0, queue s'))) (add 1 0 long_overflow)
       = Some (Inr (False, None, []))"
  using long_state_New long_state_grows long_overflow_add
  by (simp add: long_overflow_fields word_sless_alt)

lemma New_chain_ok:
  assumes "New tick_d wsize now = Inr s0" and "0 < sint wsize" and "0 \<le> sint now"
    and "sint now + (sint tick_d sdiv 1000000) * sint wsize < 2 ^ 63"
  shows "chain_ok (wheels s0)" "unlocked s0" "linked s0" "length (wheels s0) = 1"
    "wheelSize (wheels s0 ! 0) = wsize" "timer_heap s0 = timer_heap init_state"
    "next_timer s0 = 0"
proof -
  let ?T = "quo tick_d 1000000"
  from assms(1) have ms: "\<not> tick_d <s 1000000" and mk: "\<not> makeslice_panics wsize"
    and s0: "s0 = init_state\<lparr>wheels :=
                [\<lparr>tick = ?T, wheelSize = wsize, interval = ?T * wsize,
                  currentTime = truncate now ?T,
                  buckets = map (Pair 0) [0..<nat (sint wsize)]\<rparr>]\<rparr>"
    by (auto simp add: New_eq split: if_splits)
  from ms have t: "0 < sint ?T"
    using quo_ms_le0 [of tick_d] by (simp add: word_sle_eq)
  have T: "sint ?T = sint tick_d sdiv 1000000" by (rule quo_ms)
  have "0 \<le> sint ?T * sint wsize" using t assms(2) by simp
  then have prod: "sint (?T * wsize) = sint ?T * sint wsize"
    using assms(3,4) by (intro sint_mul_ok) (simp_all add: T)
  have tr: "0 \<le> sint (truncate now ?T)" "sint (truncate now ?T) \<le> sint now"
    using truncate_le [OF t assms(3)] by simp_all
  then show "chain_ok (wheels s0)"
    using t assms(2,4) mk by (simp add: s0 level_ok_def prod) (simp add: T)
  show "unlocked s0" by (simp add: s0 unlocked_def init_state_def newBucket_def)
  show "linked s0"
    using linked_init by (simp add: s0 linked_def back_refs_def elements_ok_def getBucket_def)
  show "length (wheels s0) = 1" "wheelSize (wheels s0 ! 0) = wsize"
    "timer_heap s0 = timer_heap init_state" "next_timer s0 = 0"
    by (simp_all add: s0 init_state_def)
qed

text \<open>C10. The code does not terminate where the claim says it does.
  \<^verbatim>\<open>New(time.Millisecond, 2097152)\<close> at time 1790000000000 gives a wheel with a tick
  of 1 ms and \<open>2\<^sup>2\<^sup>1\<close> slots. For a timer 140 years ahead the third level gets the
  interval \<open>2\<^sup>4\<^sup>2 * 2\<^sup>2\<^sup>1\<close>, the product of its tick and slot count, which wraps to the
  least \<^verbatim>\<open>int64\<close>; the levels after it have a tick that is not positive and an
  interval of zero, and \<^verbatim>\<open>add\<close> creates such levels without end: \<^verbatim>\<open>AfterFunc\<close> never
  returns.\<close>

theorem add_recursion_unbounded:
  "New 1000000 2097152 1790000000000 = Inr wide_state
   \<and> 2 \<le>s wheelSize (wheels wide_state ! 0) \<and> 1 \<le>s tick (wheels wide_state ! 0)
   \<and> AfterFunc 6208000000000 wide_state = None"
  using wide_state_New wide_state_diverges
  by (simp add: wide_state_def word_sle_eq)

text \<open>
  Termination within the range of \<^verbatim>\<open>int64\<close>. On a level whose chain satisfies the
  construction invariant, with at least two slots and no bucket locked, \<^verbatim>\<open>add\<close> returns for every
  timer whose expiration \<open>e\<close> has \<open>e * slotCount < 2\<^sup>6\<^sup>3\<close>, so that the
  interval of every level it creates stays in the range of \<^verbatim>\<open>int64\<close>. A wheel
  constructed with a tick of at least 1 ms and at least two slots, at a time that is
  not negative and with \<open>now + tick * slotCount\<close> in range, satisfies the invariant,
  and scheduling such a timer on it returns.
\<close>

theorem add_terminates_in_range:
  "(k < length (wheels s) \<and> chain_ok (drop k (wheels s))
      \<and> 2 \<le> sint (wheelSize (wheels s ! k))
      \<and> sint (expiration (timer_heap s t)) * sint (wheelSize (wheels s ! k)) < 2 ^ 63
      \<and> unlocked s
    \<longrightarrow> (\<exists>r s'. add k t s = Some (Inr (r, s'))))
   \<and> (New tick_d wsize now = Inr s0 \<and> 2 \<le> sint wsize \<and> 0 \<le> sint now
      \<and> sint now + (sint tick_d sdiv 1000000) * sint wsize < 2 ^ 63
      \<and> sint e * sint wsize < 2 ^ 63
    \<longrightarrow> chain_ok (wheels s0) \<and> unlocked s0
        \<and> (\<exists>t' s'. AfterFunc e s0 = Some (Inr (t', s'))))"
proof (intro conjI impI)
  assume "k < length (wheels s) \<and> chain_ok (drop k (wheels s))
      \<and> 2 \<le> sint (wheelSize (wheels s ! k))
      \<and> sint (expiration (timer_heap s t)) * sint (wheelSize (wheels s ! k)) < 2 ^ 63
      \<and> unlocked s"
  then show "\<exists>r s'. add k t s = Some (Inr (r, s'))"
    using add_returns [of k s t] by blast
next
  assume a: "New tick_d wsize now = Inr s0 \<and> 2 \<le> sint wsize \<and> 0 \<le> sint now
      \<and> sint now + (sint tick_d sdiv 1000000) * sint wsize < 2 ^ 63
      \<and> sint e * sint wsize < 2 ^ 63"
  then have z: "0 < sint wsize" by simp
  note n = New_chain_ok [OF a [THEN conjunct1] z a [THEN conjunct2, THEN conjunct2, THEN conjunct1]
      a [THEN conjunct2, THEN conjunct2, THEN conjunct2, THEN conjunct1]]
  show "chain_ok (wheels s0)" "unlocked s0" by (rule n)+
  let ?s1 = "s0\<lparr>timer_heap := (timer_heap s0)
      (0 := \<lparr>expiration = e, bucket = None, element = None\<rparr>), next_timer := Suc 0\<rparr>"
  have "\<exists>r s' new. add 0 0 ?s1 = Some (Inr (r, s'))
     \<and> (r \<longleftrightarrow> \<not> expiration (timer_heap ?s1 0) <s currentTime (wheels ?s1 ! 0) + tick (wheels ?s1 ! 0))
     \<and> wheels s' = wheels ?s1 @ new \<and> chain_ok (drop 0 (wheels s')) \<and> unlocked s'"
    using n a by (intro add_returns) (simp_all add: unlocked_def)
  then obtain r s' where "add 0 0 ?s1 = Some (Inr (r, s'))" by blast
  then show "\<exists>t' s'. AfterFunc e s0 = Some (Inr (t', s'))"
    using n(7) by (simp add: AfterFunc_def newTimer_def addOrRun_def Let_def)
qed

theorem add_terminates_in_range_witness:
  "(0::nat) < length (wheels (ex_state 2000)) \<and> chain_ok (drop 0 (wheels (ex_state 2000)))
   \<and> 2 \<le> sint (wheelSize (wheels (ex_state 2000) ! 0))
   \<and> sint (expiration (timer_heap (ex_state 2000) 0)) * sint (wheelSize (wheels (ex_state 2000) ! 0))
        < 2 ^ 63
   \<and> unlocked (ex_state 2000)
   \<and> (\<exists>r s'. add 0 0 (ex_state 2000) = Some (Inr (r, s')))
   \<and> New 5000000 12 1000 = Inr (init_state\<lparr>wheels := [w5]\<rparr>)
   \<and> 2 \<le> sint (12 :: i64) \<and> 0 \<le> sint (1000 :: i64)
   \<and> sint (1000 :: i64) + (sint (5000000 :: i64) sdiv 1000000) * sint (12 :: i64) < 2 ^ 63
   \<and> sint (2000 :: i64) * sint (12 :: i64) < 2 ^ 63
   \<and> (\<exists>t' s'. AfterFunc 2000 (init_state\<lparr>wheels := [w5]\<rparr>) = Some (Inr (t', s')))"
proof -
  have h: "(0::nat) < length (wheels (ex_state 2000)) \<and> chain_ok (drop 0 (wheels (ex_state 2000)))
     \<and> 2 \<le> sint (wheelSize (wheels (ex_state 2000) ! 0))
     \<and> sint (expiration (timer_heap (ex_state 2000) 0)) * sint (wheelSize (wheels (ex_state 2000) ! 0))
        < 2 ^ 63
     \<and> unlocked (ex_state 2000)"
    by (simp add: ex_state_simps level_ok_w5) (simp add: w5_def)
  have q: "quo 5000000 1000000 = 5" by (simp add: quo_def signed_divide_int_def)
  have tr: "truncate 1000 5 = 1000"
    by (simp add: truncate_def rem_def signed_modulo_int_def word_sle_eq)
  have n: "New 5000000 12 1000 = Inr (init_state\<lparr>wheels := [w5]\<rparr>)"
    by (simp add: New_eq q tr w5_def word_sless_alt makeslice_panics_def ptrSize_def
        maxAlloc_def)
  have g: "2 \<le> sint (12 :: i64) \<and> 0 \<le> sint (1000 :: i64)
     \<and> sint (1000 :: i64) + (sint (5000000 :: i64) sdiv 1000000) * sint (12 :: i64) < 2 ^ 63
     \<and> sint (2000 :: i64) * sint (12 :: i64) < 2 ^ 63"
    by (simp add: signed_divide_int_def)
  from add_terminates_in_range [of 0 "ex_state 2000" 0 5000000 12 1000 "init_state\<lparr>wheels := [w5]\<rparr>" 2000]
    h n g show ?thesis by blast
qed

section \<open>The callback of the engine\<close>

lemma newTimeWheel_alloc:
  assumes "alloc_ok s" and "\<not> makeslice_panics wsize"
  shows "\<exists>ow. newTimeWheel T wsize c s = Inr (ow, s)
     \<and> buckets ow = map (Pair (length (wheels s))) [0..<nat (sint wsize)]"
proof -
  have "(\<lambda>b. if fst b = length (wheels s) \<and> snd b < nat (sint wsize) then newBucket
           else bucket_heap s b) = bucket_heap s"
    using assms(1) by (auto simp: alloc_ok_def fun_eq_iff)
  then show ?thesis using assms(2) by (simp add: newTimeWheel_def Let_def)
qed

lemma grow_ok:
  assumes "linked s" and "alloc_ok s"
    and "buckets ow = map (Pair (length (wheels s))) [0..<n]"
  shows "linked (s\<lparr>wheels := wheels s @ [ow]\<rparr>)" "alloc_ok (s\<lparr>wheels := wheels s @ [ow]\<rparr>)"
proof -
  show "linked (s\<lparr>wheels := wheels s @ [ow]\<rparr>)"
    using assms(1) by (rule linked_bucket_fields) simp_all
  show "alloc_ok (s\<lparr>wheels := wheels s @ [ow]\<rparr>)"
    using assms(2,3) by (fastforce simp: alloc_ok_def)
qed

lemma alloc_ok_same:
  fixes s s' :: state
  assumes "alloc_ok s" and "wheels s' = wheels s"
    and "\<And>b. length (wheels s) \<le> fst b \<Longrightarrow> bucket_heap s' b = bucket_heap s b"
  shows "alloc_ok s'"
  using assms unfolding alloc_ok_def by simp

lemma place_ok:
  fixes s s1 :: state and tw :: TimeWheel and i :: nat and x y :: i64 and c :: bool
  assumes "linked s" and "alloc_ok s" and "getBucket s t = None"
    and "tw \<in> set (wheels s)" and "i < length (buckets tw)"
    and "Add (buckets tw ! i) t s = Inr s1"
  defines "s2 \<equiv> snd (SetExpiration (buckets tw ! i) x s1)"
  defines "s3 \<equiv> (if c then Offer (buckets tw ! i) y s2 else s2)"
  shows "linked s3" "alloc_ok s3" "getBucket s3 t = Some (buckets tw ! i)"
    "mu (bucket_heap s b) \<Longrightarrow> bucket_heap s3 b = bucket_heap s b" "spawned s3 = spawned s"
proof -
  let ?b = "buckets tw ! i"
  have al: "fst ?b < length (wheels s)"
    using assms(2,4,5) by (auto simp: alloc_ok_def)
  note a = Add_linked [OF assms(1,3,6)]
  from assms(6) have free: "\<not> mu (bucket_heap s ?b)"
    and s1: "s1 = s\<lparr>bucket_heap := (bucket_heap s)
                    (?b := (bucket_heap s ?b)\<lparr>timers := timers (bucket_heap s ?b) @ [(next_elem s, t)]\<rparr>),
                  timer_heap := (timer_heap s)
                    (t := (timer_heap s t)\<lparr>element := Some (next_elem s), bucket := Some ?b\<rparr>),
                  next_elem := Suc (next_elem s)\<rparr>"
    by (auto simp: Add_eq split: if_splits)
  have "linked s2"
    using a(1) by (rule linked_bucket_fields) (simp_all add: s2_def SetExpiration_def)
  then show "linked s3"
    by (rule linked_bucket_fields) (simp_all add: s3_def Offer_def)
  show "alloc_ok s3"
  proof (rule alloc_ok_same [OF assms(2)])
    show "wheels s3 = wheels s"
      by (simp add: s3_def s2_def s1 SetExpiration_def Offer_def)
    fix b' :: bid assume "length (wheels s) \<le> fst b'"
    with al have "b' \<noteq> ?b" by auto
    then show "bucket_heap s3 b' = bucket_heap s b'"
      by (simp add: s3_def s2_def s1 SetExpiration_def Offer_def)
  qed
  show "getBucket s3 t = Some ?b"
    by (simp add: s3_def s2_def s1 SetExpiration_def Offer_def getBucket_def)
  show "mu (bucket_heap s b) \<Longrightarrow> bucket_heap s3 b = bucket_heap s b"
    using free by (auto simp: s3_def s2_def s1 SetExpiration_def Offer_def)
  show "spawned s3 = spawned s"
    by (simp add: s3_def s2_def s1 SetExpiration_def Offer_def)
qed

lemma add_frame:
  assumes "add k t s = Some y"
  shows "\<forall>r s'. y = Inr (r, s') \<longrightarrow>
     (\<not> r \<longrightarrow> timer_heap s' = timer_heap s \<and> spawned s' = spawned s)
     \<and> (linked s \<and> alloc_ok s \<and> getBucket s t = None \<longrightarrow>
          linked s' \<and> alloc_ok s' \<and> spawned s' = spawned s
          \<and> (r \<longleftrightarrow> getBucket s' t \<noteq> None)
          \<and> (\<forall>b. mu (bucket_heap s b) \<longrightarrow> bucket_heap s' b = bucket_heap s b))"
proof (rule add.raw_induct [where P = "\<lambda>k t s y. \<forall>r s'. y = Inr (r, s') \<longrightarrow>
     (\<not> r \<longrightarrow> timer_heap s' = timer_heap s \<and> spawned s' = spawned s)
     \<and> (linked s \<and> alloc_ok s \<and> getBucket s t = None \<longrightarrow>
          linked s' \<and> alloc_ok s' \<and> spawned s' = spawned s
          \<and> (r \<longleftrightarrow> getBucket s' t \<noteq> None)
          \<and> (\<forall>b. mu (bucket_heap s b) \<longrightarrow> bucket_heap s' b = bucket_heap s b))", OF _ assms],
    goal_cases)
  case (1 add' k t s y)
  let ?tw = "wheels s ! k" and ?e = "expiration (timer_heap s t)"
  show ?case
  proof (intro allI impI)
    fix r s' assume y: "y = Inr (r, s')"
    with "1"(2) have k: "k < length (wheels s)" by (auto split: if_splits)
    consider (due) "?e <s currentTime ?tw + tick ?tw"
      | (place) "\<not> ?e <s currentTime ?tw + tick ?tw" "?e <s currentTime ?tw + interval ?tw"
      | (old) "\<not> ?e <s currentTime ?tw + tick ?tw" "\<not> ?e <s currentTime ?tw + interval ?tw"
          "Suc k < length (wheels s)"
      | (new) "\<not> ?e <s currentTime ?tw + tick ?tw" "\<not> ?e <s currentTime ?tw + interval ?tw"
          "\<not> Suc k < length (wheels s)"
      by blast
    then show "(\<not> r \<longrightarrow> timer_heap s' = timer_heap s \<and> spawned s' = spawned s)
        \<and> (linked s \<and> alloc_ok s \<and> getBucket s t = None \<longrightarrow>
          linked s' \<and> alloc_ok s' \<and> spawned s' = spawned s
          \<and> (r \<longleftrightarrow> getBucket s' t \<noteq> None)
          \<and> (\<forall>b. mu (bucket_heap s b) \<longrightarrow> bucket_heap s' b = bucket_heap s b))"
    proof cases
      case due
      with "1"(2) k y show ?thesis by (simp add: Let_def)
    next
      case place
      let ?i = "nat (sint (rem (quo ?e (tick ?tw)) (wheelSize ?tw)))"
      from "1"(2) k y place obtain s1 where
        i: "?i < length (buckets ?tw)" and ad: "Add (buckets ?tw ! ?i) t s = Inr s1"
        and r: "r" and s': "s' = (if fst (SetExpiration (buckets ?tw ! ?i) (quo ?e (tick ?tw) * tick ?tw) s1)
            then Offer (buckets ?tw ! ?i)
                   (Expiration (snd (SetExpiration (buckets ?tw ! ?i) (quo ?e (tick ?tw) * tick ?tw) s1)) (buckets ?tw ! ?i))
                   (snd (SetExpiration (buckets ?tw ! ?i) (quo ?e (tick ?tw) * tick ?tw) s1))
            else snd (SetExpiration (buckets ?tw ! ?i) (quo ?e (tick ?tw) * tick ?tw) s1))"
        by (auto simp: Let_def split: if_splits sum.splits prod.splits)
      have tw: "?tw \<in> set (wheels s)" using k by simp
      show ?thesis
      proof (intro conjI impI)
        assume "\<not> r" with r show "timer_heap s' = timer_heap s" "spawned s' = spawned s" by simp_all
      next
        assume a: "linked s \<and> alloc_ok s \<and> getBucket s t = None"
        note p = place_ok [OF a [THEN conjunct1] a [THEN conjunct2, THEN conjunct1]
            a [THEN conjunct2, THEN conjunct2] tw i ad]
        show "linked s'" "alloc_ok s'" "spawned s' = spawned s"
          unfolding s' by (rule p)+
        show "r \<longleftrightarrow> getBucket s' t \<noteq> None"
          unfolding s' using r by (simp add: p(3))
        show "\<forall>b. mu (bucket_heap s b) \<longrightarrow> bucket_heap s' b = bucket_heap s b"
          unfolding s' using p(4) by blast
      qed
    next
      case old
      with "1"(2) k y have "add' (Suc k) t s = Some (Inr (r, s'))" by (simp add: Let_def)
      from "1"(1) [OF this] show ?thesis by blast
    next
      case new
      show ?thesis
      proof (cases "makeslice_panics (wheelSize ?tw)")
        case True
        with "1"(2) k y new show ?thesis by (simp add: Let_def newTimeWheel_def)
      next
        case False
        define ow where "ow = \<lparr>tick = interval ?tw, wheelSize = wheelSize ?tw,
            interval = interval ?tw * wheelSize ?tw,
            currentTime = truncate (currentTime ?tw) (interval ?tw),
            buckets = map (Pair (length (wheels s))) [0..<nat (sint (wheelSize ?tw))]\<rparr>"
        define s1 where "s1 = s\<lparr>bucket_heap :=
            (\<lambda>b. if fst b = length (wheels s) \<and> snd b < nat (sint (wheelSize ?tw)) then newBucket
                 else bucket_heap s b)\<rparr>"
        have nw: "newTimeWheel (interval ?tw) (wheelSize ?tw) (currentTime ?tw) s = Inr (ow, s1)"
          using False by (simp add: newTimeWheel_def Let_def ow_def s1_def)
        with "1"(2) k y new have rec: "add' (Suc k) t (s1\<lparr>wheels := wheels s1 @ [ow]\<rparr>) = Some (Inr (r, s'))"
          by (simp add: Let_def)
        note IH = "1"(1) [OF rec, rule_format, OF refl]
        show ?thesis
        proof (intro conjI impI)
          assume "\<not> r"
          with IH show "timer_heap s' = timer_heap s" "spawned s' = spawned s"
            by (simp_all add: s1_def)
        next
          assume a: "linked s \<and> alloc_ok s \<and> getBucket s t = None"
          then have "s1 = s"
            using newTimeWheel_alloc [of s "wheelSize ?tw" "interval ?tw" "currentTime ?tw"] False nw
            by auto
          moreover have "linked (s\<lparr>wheels := wheels s @ [ow]\<rparr>)" "alloc_ok (s\<lparr>wheels := wheels s @ [ow]\<rparr>)"
            using a by (auto intro: grow_ok simp: ow_def)
          moreover have "getBucket (s\<lparr>wheels := wheels s @ [ow]\<rparr>) t = None"
            using a by (simp add: getBucket_def)
          ultimately have "linked s' \<and> alloc_ok s' \<and> spawned s' = spawned s
              \<and> (r \<longleftrightarrow> getBucket s' t \<noteq> None)
              \<and> (\<forall>b. mu (bucket_heap s b) \<longrightarrow> bucket_heap s' b = bucket_heap s b)"
            using IH by simp
          then show "linked s'" "alloc_ok s'" "spawned s' = spawned s"
            "r \<longleftrightarrow> getBucket s' t \<noteq> None"
            "\<forall>b. mu (bucket_heap s b) \<longrightarrow> bucket_heap s' b = bucket_heap s b"
            by blast+
        qed
      qed
    qed
  qed
qed

lemma addOrRun_ok: "callback_ok (addOrRun k) b"
  unfolding callback_ok_def
proof (intro allI impI)
  fix t s s'
  assume a: "linked s \<and> alloc_ok s \<and> getBucket s t = None \<and> mu (bucket_heap s b)
      \<and> addOrRun k t s = Some (Inr s')"
  then obtain r s1 where ad: "add k t s = Some (Inr (r, s1))"
    and s': "s' = (if r then s1 else s1\<lparr>spawned := spawned s1 @ [t]\<rparr>)"
    by (auto simp: addOrRun_def split: option.splits sum.splits)
  from add_frame [OF ad] a have "linked s1" "alloc_ok s1" "bucket_heap s1 b = bucket_heap s b"
    by blast+
  then show "linked s' \<and> alloc_ok s' \<and> bucket_heap s' b = bucket_heap s b"
    by (auto simp: s' alloc_ok_def intro: linked_bucket_fields)
qed

section \<open>The example with two timers\<close>

lemma two_timers_fields:
  "bucket_heap two_timers =
     (\<lambda>b. newBucket)((0, 10) := \<lparr>bexpiration = 1010, mu = False, timers = [(0, 0), (1, 1)]\<rparr>)"
  "timer_heap two_timers =
     (\<lambda>t. no_timer)
       (0 := \<lparr>expiration = 1012, bucket = Some (0, 10), element = Some 0\<rparr>,
        1 := \<lparr>expiration = 1013, bucket = Some (0, 10), element = Some 1\<rparr>)"
  "next_elem two_timers = 2" "wheels two_timers = [w5]" "spawned two_timers = []"
  by (simp_all add: two_timers_def Add_eq ex_state_def init_state_def newBucket_def
      SetExpiration_def fun_upd_twist)

lemma two_timers_ok: "linked two_timers" "alloc_ok two_timers"
proof -
  show "linked two_timers"
    unfolding linked_def back_refs_def elements_ok_def getBucket_def two_timers_fields
    by (auto simp: newBucket_def no_timer_def split: if_splits)
  show "alloc_ok two_timers"
    unfolding alloc_ok_def two_timers_fields
    by (auto simp: w5_def)
qed

lemma two_timers_probe:
  "map_option (map_sum id spawned) (Flush (probe (0, 10)) (0, 10) two_timers) = Some (Inr [0])"
  by (simp add: Flush_def Lock_def Front_def Next_def Flush_loop.simps remove_timer_eq
      getBucket_def probe_def two_timers_fields Unlock_def SetExpiration_def Let_def)

lemma two_timers_probe_spec:
  "map_option (map_sum id spawned) (Flush_drain_first (probe (0, 10)) (0, 10) two_timers)
     = Some (Inr [])"
  by (simp add: Flush_drain_first_def Lock_def remove_timer_eq
      getBucket_def probe_def two_timers_fields Unlock_def SetExpiration_def Let_def)

lemma two_timers_readd_spec:
  "map_option (map_sum id (\<lambda>s. map snd (timers (bucket_heap s (0, 10)))))
     (Flush_drain_first (readd (0, 10)) (0, 10) two_timers) = Some (Inr [0, 1])"
  by (simp add: Flush_drain_first_def Lock_def remove_timer_eq
      getBucket_def readd_def Add_eq two_timers_fields Unlock_def SetExpiration_def Let_def)

lemma two_timers_deadlock: "Flush (readd (0, 10)) (0, 10) two_timers = Some (Inl Deadlock)"
  by (rule readd_deadlocks [OF two_timers_ok]) (simp_all add: two_timers_fields)


section \<open>The order of unlinking and callbacks\<close>

text \<open>The claim as worded fails, on the bucket with two timers. A callback that
  looks at the bucket finds the second timer still linked when it is called on the
  first (under the flush of the specification it finds the bucket empty both times),
  and a callback that adds the timer to the same bucket again deadlocks on the
  lock that \<^verbatim>\<open>Flush\<close> holds (under the flush of the specification it succeeds).\<close>

theorem Flush_callback_sees_rest:
  "map_option (map_sum id spawned) (Flush (probe (0, 10)) (0, 10) two_timers) = Some (Inr [0])
   \<and> map_option (map_sum id spawned) (Flush_drain_first (probe (0, 10)) (0, 10) two_timers)
       = Some (Inr [])
   \<and> Flush (readd (0, 10)) (0, 10) two_timers = Some (Inl Deadlock)
   \<and> map_option (map_sum id (\<lambda>s. map snd (timers (bucket_heap s (0, 10)))))
       (Flush_drain_first (readd (0, 10)) (0, 10) two_timers) = Some (Inr [0, 1])
   \<and> Flush (probe (0, 10)) (0, 10) two_timers \<noteq> Flush_drain_first (probe (0, 10)) (0, 10) two_timers"
proof -
  have "Flush (probe (0, 10)) (0, 10) two_timers \<noteq> Flush_drain_first (probe (0, 10)) (0, 10) two_timers"
    using two_timers_probe two_timers_probe_spec by auto
  then show ?thesis
    using two_timers_probe two_timers_probe_spec two_timers_deadlock two_timers_readd_spec
    by blast
qed

text \<open>
  C2, as the code has it. For a bucket \<open>b\<close> of the wheel that is not locked, in a
  state that satisfies the invariants, and a callback that keeps them and leaves \<open>b\<close>
  alone: \<^verbatim>\<open>Flush\<close> takes the lock and then goes through the list as it stands, in
  order, unlinking each timer and calling the callback on it at once. The callback
  for the first timer runs in a state where the later timers are still linked and
  the lock is held; a callback that adds the timer to \<open>b\<close> again deadlocks. When
  \<^verbatim>\<open>Flush\<close> returns the list is empty, the expiration is \<open>-1\<close>, set after the last
  callback, and the lock is released.
\<close>

theorem Flush_unlinks_and_calls_in_turn:
  assumes "callback_ok f b" and "linked s" and "alloc_ok s" and "fst b < length (wheels s)"
    and "\<not> mu (bucket_heap s b)"
  shows "\<exists>s1. Lock b s = Inr s1
     \<and> Flush f b s =
         (case flush_each f b (timers (bucket_heap s b)) s1 of
            None \<Rightarrow> None
          | Some (Inl err) \<Rightarrow> Some (Inl err)
          | Some (Inr s2) \<Rightarrow> Some (Inr (Unlock b (snd (SetExpiration b (- 1) s2)))))
     \<and> (\<forall>a t rest. timers (bucket_heap s b) = (a, t) # rest \<longrightarrow>
          (\<exists>s2. remove_timer b t s1 = Inr (True, s2) \<and> timers (bucket_heap s2 b) = rest
             \<and> mu (bucket_heap s2 b) \<and> getBucket s2 t = None
             \<and> flush_each f b (timers (bucket_heap s b)) s1 =
                 (case f t s2 of
                    None \<Rightarrow> None
                  | Some (Inl err) \<Rightarrow> Some (Inl err)
                  | Some (Inr s3) \<Rightarrow> flush_each f b rest s3)))
     \<and> (timers (bucket_heap s b) \<noteq> [] \<longrightarrow> Flush (readd b) b s = Some (Inl Deadlock))
     \<and> (\<forall>s'. Flush f b s = Some (Inr s') \<longrightarrow>
          timers (bucket_heap s' b) = [] \<and> Expiration s' b = - 1 \<and> \<not> mu (bucket_heap s' b)
          \<and> linked s' \<and> alloc_ok s')"
proof -
  from Flush_eq [OF assms] obtain s1 where lk: "Lock b s = Inr s1" and l1: "linked s1"
    and a1: "alloc_ok s1" and m1: "mu (bucket_heap s1 b)"
    and ts: "timers (bucket_heap s1 b) = timers (bucket_heap s b)"
    and eq: "Flush f b s =
         (case flush_each f b (timers (bucket_heap s b)) s1 of
            None \<Rightarrow> None
          | Some (Inl err) \<Rightarrow> Some (Inl err)
          | Some (Inr s2) \<Rightarrow> Some (Inr (Unlock b (snd (SetExpiration b (- 1) s2)))))"
    by blast
  have first: "\<exists>s2. remove_timer b t s1 = Inr (True, s2) \<and> timers (bucket_heap s2 b) = rest
             \<and> mu (bucket_heap s2 b) \<and> getBucket s2 t = None
             \<and> flush_each f b (timers (bucket_heap s b)) s1 =
                 (case f t s2 of
                    None \<Rightarrow> None
                  | Some (Inl err) \<Rightarrow> Some (Inl err)
                  | Some (Inr s3) \<Rightarrow> flush_each f b rest s3)"
    if "timers (bucket_heap s b) = (a, t) # rest" for a t rest
  proof -
    from that ts have "timers (bucket_heap s1 b) = (a, t) # rest" by simp
    from unlink_head [OF l1 a1 this] obtain s2 where
      "remove_timer b t s1 = Inr (True, s2)" "timers (bucket_heap s2 b) = rest"
      "mu (bucket_heap s2 b)" "getBucket s2 t = None"
      using m1 by auto
    then show ?thesis using that by auto
  qed
  have dead: "timers (bucket_heap s b) \<noteq> [] \<longrightarrow> Flush (readd b) b s = Some (Inl Deadlock)"
    using readd_deadlocks [OF assms(2-5)] by blast
  have fin: "timers (bucket_heap s' b) = [] \<and> Expiration s' b = - 1 \<and> \<not> mu (bucket_heap s' b)
          \<and> linked s' \<and> alloc_ok s'" if "Flush f b s = Some (Inr s')" for s'
    using Flush_result [OF assms(1-4) that] by simp
  from lk eq first dead fin show ?thesis by blast
qed

theorem Flush_unlinks_and_calls_in_turn_witness:
  "callback_ok (probe (0, 10)) (0, 10) \<and> linked two_timers \<and> alloc_ok two_timers
   \<and> fst ((0, 10) :: bid) < length (wheels two_timers)
   \<and> \<not> mu (bucket_heap two_timers (0, 10))
   \<and> timers (bucket_heap two_timers (0, 10)) = (0, 0) # [(1, 1)]
   \<and> (\<exists>s1 s2. Lock (0, 10) two_timers = Inr s1
        \<and> remove_timer (0, 10) 0 s1 = Inr (True, s2)
        \<and> timers (bucket_heap s2 (0, 10)) = [(1, 1)] \<and> mu (bucket_heap s2 (0, 10)))
   \<and> Flush (readd (0, 10)) (0, 10) two_timers = Some (Inl Deadlock)
   \<and> (\<exists>s'. Flush (probe (0, 10)) (0, 10) two_timers = Some (Inr s')
        \<and> timers (bucket_heap s' (0, 10)) = [] \<and> Expiration s' (0, 10) = - 1)"
proof -
  have h: "callback_ok (probe (0, 10)) (0, 10)" "linked two_timers" "alloc_ok two_timers"
    "fst ((0, 10) :: bid) < length (wheels two_timers)" "\<not> mu (bucket_heap two_timers (0, 10))"
    by (simp_all add: probe_ok two_timers_ok two_timers_fields)
  have ts: "timers (bucket_heap two_timers (0, 10)) = (0, 0) # [(1, 1)]"
    by (simp add: two_timers_fields)
  from two_timers_probe obtain s' where
    fl: "Flush (probe (0, 10)) (0, 10) two_timers = Some (Inr s')"
    by (cases "Flush (probe (0, 10)) (0, 10) two_timers") (auto simp: map_sum_def split: sum.splits)
  from Flush_unlinks_and_calls_in_turn [OF h] ts fl
  have "(\<exists>s1 s2. Lock (0, 10) two_timers = Inr s1
        \<and> remove_timer (0, 10) 0 s1 = Inr (True, s2)
        \<and> timers (bucket_heap s2 (0, 10)) = [(1, 1)] \<and> mu (bucket_heap s2 (0, 10)))
     \<and> Flush (readd (0, 10)) (0, 10) two_timers = Some (Inl Deadlock)
     \<and> timers (bucket_heap s' (0, 10)) = [] \<and> Expiration s' (0, 10) = - 1"
    by (metis list.distinct(1))
  with h ts fl show ?thesis by blast
qed

section \<open>Cancellation\<close>

lemma ex_state_ok: "linked (ex_state e)" "alloc_ok (ex_state e)"
proof -
  show "linked (ex_state e)"
    unfolding linked_def back_refs_def elements_ok_def getBucket_def
    by (simp add: ex_state_def init_state_def newBucket_def no_timer_def)
  show "alloc_ok (ex_state e)"
    unfolding alloc_ok_def
    by (auto simp: ex_state_def init_state_def w5_def)
qed

lemma Stop_unowned: "getBucket s t = None \<Longrightarrow> Stop t s = Inr (False, s)"
  by (simp add: Stop_eq)

text \<open>
  C3. In a state that satisfies the invariants, \<^verbatim>\<open>Stop\<close> returns, and it returns true
  exactly when the timer has an owning bucket at the time of the call. After it the
  timer is not in the list of that bucket and has no owning bucket; when it returns
  false nothing has changed. A second \<^verbatim>\<open>Stop\<close> returns false. A timer without an
  owning bucket on which \<^verbatim>\<open>add\<close> returns false (a timer just created, or one that
  a flush has just unlinked) has its task started by \<^verbatim>\<open>addOrRun\<close>, and \<^verbatim>\<open>Stop\<close> on
  it returns false afterwards.
\<close>

theorem Stop_true_iff_pending:
  assumes "linked s"
  shows "\<exists>r s'. Stop t s = Inr (r, s')
     \<and> (r \<longleftrightarrow> getBucket s t \<noteq> None)
     \<and> (\<forall>b. getBucket s t = Some b \<longrightarrow> t \<notin> snd ` set (timers (bucket_heap s' b)))
     \<and> getBucket s' t = None
     \<and> (\<not> r \<longrightarrow> s' = s)
     \<and> linked s'
     \<and> Stop t s' = Inr (False, s')
     \<and> (\<forall>k s1. getBucket s t = None \<and> add k t s = Some (Inr (False, s1)) \<longrightarrow>
          addOrRun k t s = Some (Inr (s1\<lparr>spawned := spawned s1 @ [t]\<rparr>))
          \<and> Stop t (s1\<lparr>spawned := spawned s1 @ [t]\<rparr>)
              = Inr (False, s1\<lparr>spawned := spawned s1 @ [t]\<rparr>))"
proof -
  from Stop_linked [OF assms, of t] obtain r s' where st: "Stop t s = Inr (r, s')"
    and r: "r \<longleftrightarrow> getBucket s t \<noteq> None"
    and out: "r \<longrightarrow> (\<forall>b. getBucket s t = Some b \<longrightarrow> t \<notin> snd ` set (timers (bucket_heap s' b)))"
    and un: "getBucket s' t = None" and same: "\<not> r \<longrightarrow> s' = s" and l: "linked s'"
    by blast
  have again: "Stop t s' = Inr (False, s')" using un by (rule Stop_unowned)
  have ran: "addOrRun k t s = Some (Inr (s1\<lparr>spawned := spawned s1 @ [t]\<rparr>))
      \<and> Stop t (s1\<lparr>spawned := spawned s1 @ [t]\<rparr>) = Inr (False, s1\<lparr>spawned := spawned s1 @ [t]\<rparr>)"
    if "getBucket s t = None \<and> add k t s = Some (Inr (False, s1))" for k s1
  proof -
    from that add_frame [of k t s "Inr (False, s1)"] have "timer_heap s1 = timer_heap s" by blast
    with that have "getBucket (s1\<lparr>spawned := spawned s1 @ [t]\<rparr>) t = None"
      by (simp add: getBucket_def)
    then show ?thesis using that by (simp add: Stop_unowned addOrRun_def)
  qed
  from st r out un same l again ran show ?thesis by blast
qed

theorem Stop_true_iff_pending_witness:
  "linked two_timers \<and> getBucket two_timers 0 = Some (0, 10)
   \<and> (\<exists>s'. Stop 0 two_timers = Inr (True, s')
        \<and> 0 \<notin> snd ` set (timers (bucket_heap s' (0, 10)))
        \<and> getBucket s' 0 = None \<and> Stop 0 s' = Inr (False, s'))
   \<and> linked (ex_state 1003) \<and> getBucket (ex_state 1003) 0 = None
   \<and> Stop 0 (ex_state 1003) = Inr (False, ex_state 1003)
   \<and> add 0 0 (ex_state 1003) = Some (Inr (False, ex_state 1003))
   \<and> Stop 0 ((ex_state 1003)\<lparr>spawned := spawned (ex_state 1003) @ [0]\<rparr>)
       = Inr (False, (ex_state 1003)\<lparr>spawned := spawned (ex_state 1003) @ [0]\<rparr>)"
proof -
  have g: "getBucket two_timers 0 = Some (0, 10)"
    by (simp add: getBucket_def two_timers_fields)
  from Stop_true_iff_pending [OF two_timers_ok(1), of 0] obtain r s' where
    st: "Stop 0 two_timers = Inr (r, s')" and r: "r \<longleftrightarrow> getBucket two_timers 0 \<noteq> None"
    and out: "\<forall>b. getBucket two_timers 0 = Some b \<longrightarrow> 0 \<notin> snd ` set (timers (bucket_heap s' b))"
    and un: "getBucket s' 0 = None" and ag: "Stop 0 s' = Inr (False, s')"
    by blast
  from r g have r by simp
  from out g have "0 \<notin> snd ` set (timers (bucket_heap s' (0, 10)))" by blast
  with st \<open>r\<close> un ag have a: "\<exists>s'. Stop 0 two_timers = Inr (True, s')
        \<and> 0 \<notin> snd ` set (timers (bucket_heap s' (0, 10)))
        \<and> getBucket s' 0 = None \<and> Stop 0 s' = Inr (False, s')"
    by auto
  have u: "getBucket (ex_state 1003) 0 = None" by (simp add: ex_state_simps)
  have d: "add 0 0 (ex_state 1003) = Some (Inr (False, ex_state 1003))"
    by (rule add_due) (simp_all add: ex_state_simps w5_def word_sless_alt)
  from Stop_true_iff_pending [OF ex_state_ok(1) [of 1003], of 0] obtain r2 s2 where
    st2: "Stop 0 (ex_state 1003) = Inr (r2, s2)"
    and r2: "r2 \<longleftrightarrow> getBucket (ex_state 1003) 0 \<noteq> None"
    and same: "\<not> r2 \<longrightarrow> s2 = ex_state 1003"
    and ran: "\<forall>k s1. getBucket (ex_state 1003) 0 = None
          \<and> add k 0 (ex_state 1003) = Some (Inr (False, s1)) \<longrightarrow>
          addOrRun k 0 (ex_state 1003) = Some (Inr (s1\<lparr>spawned := spawned s1 @ [0]\<rparr>))
          \<and> Stop 0 (s1\<lparr>spawned := spawned s1 @ [0]\<rparr>)
              = Inr (False, s1\<lparr>spawned := spawned s1 @ [0]\<rparr>)"
    by blast
  from r2 u have "\<not> r2" by simp
  with same st2 have b1: "Stop 0 (ex_state 1003) = Inr (False, ex_state 1003)" by simp
  from ran u d have b2: "Stop 0 ((ex_state 1003)\<lparr>spawned := spawned (ex_state 1003) @ [0]\<rparr>)
       = Inr (False, (ex_state 1003)\<lparr>spawned := spawned (ex_state 1003) @ [0]\<rparr>)"
    by blast
  note b = b1 b2
  from two_timers_ok(1) g a ex_state_ok(1) u d b show ?thesis by blast
qed

lemma advanced_fields:
  "bucket_heap (advanceClock_at 0 1010 two_timers) = bucket_heap two_timers"
  "timer_heap (advanceClock_at 0 1010 two_timers) = timer_heap two_timers"
  "next_elem (advanceClock_at 0 1010 two_timers) = 2"
  "spawned (advanceClock_at 0 1010 two_timers) = []"
  "wheels (advanceClock_at 0 1010 two_timers) = [w5\<lparr>currentTime := 1010\<rparr>]"
proof -
  have "truncate 1010 5 = 1010"
    by (simp add: truncate_def rem_def signed_modulo_int_def word_sle_eq)
  then show "wheels (advanceClock_at 0 1010 two_timers) = [w5\<lparr>currentTime := 1010\<rparr>]"
    by (simp add: advanceClock_at_def two_timers_fields Let_def w5_def word_sle_eq)
  show "bucket_heap (advanceClock_at 0 1010 two_timers) = bucket_heap two_timers"
    "timer_heap (advanceClock_at 0 1010 two_timers) = timer_heap two_timers"
    "next_elem (advanceClock_at 0 1010 two_timers) = 2"
    "spawned (advanceClock_at 0 1010 two_timers) = []"
    by (simp_all add: advanceClock_at_def two_timers_fields)
qed

lemma advanced_ok:
  "linked (advanceClock_at 0 1010 two_timers)" "alloc_ok (advanceClock_at 0 1010 two_timers)"
proof -
  show "linked (advanceClock_at 0 1010 two_timers)"
    using two_timers_ok(1) by (rule linked_bucket_fields) (simp_all add: advanced_fields two_timers_fields)
  show "alloc_ok (advanceClock_at 0 1010 two_timers)"
    using two_timers_ok(2)
    by (simp add: alloc_ok_def advanced_fields two_timers_fields)
qed

lemma dispatch_two_timers:
  "map_option (map_sum id spawned) (dispatch (0, 10) two_timers) = Some (Inr [0, 1])"
proof -
  have due: "add 0 t s = Some (Inr (False, s))"
    if "wheels s = [w5\<lparr>currentTime := 1010\<rparr>]" "expiration (timer_heap s t) <s 1015" for t s
    using that by (intro add_due) (simp_all add: w5_def)
  have x: "bexpiration (bucket_heap two_timers (0, 10)) = 1010"
    by (simp add: two_timers_fields)
  show ?thesis
    unfolding dispatch_def x
    by (simp add: Flush_def Lock_def Front_def Next_def Flush_loop.simps remove_timer_eq
      getBucket_def addOrRun_def due advanced_fields two_timers_fields Unlock_def
      SetExpiration_def Let_def word_sless_alt)
qed

section \<open>The back-reference invariant\<close>

lemma New_linked:
  assumes "New tick_d wsize now = Inr s0"
  shows "linked s0" "alloc_ok s0"
proof -
  from assms have s0: "s0 = init_state\<lparr>wheels :=
                [\<lparr>tick = quo tick_d 1000000, wheelSize = wsize,
                  interval = quo tick_d 1000000 * wsize,
                  currentTime = truncate now (quo tick_d 1000000),
                  buckets = map (Pair 0) [0..<nat (sint wsize)]\<rparr>]\<rparr>"
    by (auto simp add: New_eq split: if_splits)
  show "linked s0"
    unfolding s0 using linked_init by (rule linked_bucket_fields) simp_all
  show "alloc_ok s0"
    unfolding s0 alloc_ok_def by (auto simp: init_state_def)
qed

text \<open>
  C8. The invariant \<open>linked\<close> says that a timer refers back to a bucket exactly when
  it is in the list of that bucket (with the facts about list elements that the
  operations need). It holds for a new engine. \<^verbatim>\<open>Add\<close> of a timer without an owning
  bucket keeps it, and the timer is then in the list of the bucket and refers back
  to it. \<^verbatim>\<open>remove\<close> keeps it and, when it returns true, the timer is out of the list
  and has no owning bucket. \<^verbatim>\<open>Stop\<close> keeps it. \<^verbatim>\<open>Flush\<close> of a bucket of the wheel
  keeps it, for a callback that keeps it and leaves the flushed bucket alone, as the
  callback of the engine, \<^verbatim>\<open>addOrRun\<close>, does.
\<close>

theorem back_reference_invariant:
  "(linked s \<longrightarrow>
      (\<forall>t b. getBucket s t = Some b \<longleftrightarrow> t \<in> snd ` set (timers (bucket_heap s b))))
   \<and> (New tick_d wsize now = Inr s0 \<longrightarrow> linked s0 \<and> alloc_ok s0)
   \<and> (linked s \<and> getBucket s t = None \<and> Add b t s = Inr s1 \<longrightarrow>
        linked s1 \<and> getBucket s1 t = Some b \<and> t \<in> snd ` set (timers (bucket_heap s1 b)))
   \<and> (linked s \<and> remove_timer b t s = Inr (r, s2) \<longrightarrow>
        linked s2 \<and> (r \<longleftrightarrow> getBucket s t = Some b)
        \<and> (r \<longrightarrow> getBucket s2 t = None \<and> t \<notin> snd ` set (timers (bucket_heap s2 b))))
   \<and> (linked s \<and> Stop t s = Inr (r', s3) \<longrightarrow> linked s3 \<and> getBucket s3 t = None)
   \<and> (linked s \<and> alloc_ok s \<and> fst b < length (wheels s) \<and> callback_ok f b
        \<and> Flush f b s = Some (Inr s4) \<longrightarrow>
        linked s4 \<and> alloc_ok s4 \<and> timers (bucket_heap s4 b) = [])
   \<and> callback_ok (addOrRun k) b"
proof (intro conjI impI)
  assume "linked s"
  then show "\<forall>t b. getBucket s t = Some b \<longleftrightarrow> t \<in> snd ` set (timers (bucket_heap s b))"
    unfolding linked_def back_refs_def by blast
next
  assume "New tick_d wsize now = Inr s0"
  then show "linked s0" "alloc_ok s0" by (rule New_linked)+
next
  assume "linked s \<and> getBucket s t = None \<and> Add b t s = Inr s1"
  then have a: "linked s" "getBucket s t = None" "Add b t s = Inr s1" by simp_all
  show "linked s1" "getBucket s1 t = Some b" "t \<in> snd ` set (timers (bucket_heap s1 b))"
    by (rule Add_linked [OF a])+
next
  assume "linked s \<and> remove_timer b t s = Inr (r, s2)"
  then have a: "linked s" "remove_timer b t s = Inr (r, s2)" by simp_all
  show "linked s2" "r \<longleftrightarrow> getBucket s t = Some b" by (rule remove_timer_linked [OF a])+
  assume r
  then show "getBucket s2 t = None" "t \<notin> snd ` set (timers (bucket_heap s2 b))"
    using remove_timer_linked(3) [OF a] by simp_all
next
  assume a: "linked s \<and> Stop t s = Inr (r', s3)"
  with Stop_linked [of s t] show "linked s3" "getBucket s3 t = None" by auto
next
  assume "linked s \<and> alloc_ok s \<and> fst b < length (wheels s) \<and> callback_ok f b
        \<and> Flush f b s = Some (Inr s4)"
  then have a: "callback_ok f b" "linked s" "alloc_ok s" "fst b < length (wheels s)"
    "Flush f b s = Some (Inr s4)" by simp_all
  show "linked s4" "alloc_ok s4" "timers (bucket_heap s4 b) = []"
    by (rule Flush_result [OF a])+
next
  show "callback_ok (addOrRun k) b" by (rule addOrRun_ok)
qed


theorem back_reference_invariant_witness:
  "linked two_timers \<and> getBucket two_timers 0 = Some (0, 10)
   \<and> 0 \<in> snd ` set (timers (bucket_heap two_timers (0, 10)))
   \<and> New 5000000 12 1000 = Inr (init_state\<lparr>wheels := [w5]\<rparr>)
   \<and> linked (init_state\<lparr>wheels := [w5]\<rparr>)
   \<and> linked (ex_state 1012) \<and> getBucket (ex_state 1012) 0 = None
   \<and> (\<exists>s1. Add (0, 10) 0 (ex_state 1012) = Inr s1 \<and> linked s1 \<and> getBucket s1 0 = Some (0, 10))
   \<and> (\<exists>s2. remove_timer (0, 10) 0 two_timers = Inr (True, s2) \<and> linked s2
          \<and> getBucket s2 0 = None)
   \<and> (\<exists>r s3. Stop 1 two_timers = Inr (r, s3) \<and> linked s3)
   \<and> callback_ok (addOrRun 0) (0, 10)
   \<and> linked (advanceClock_at 0 1010 two_timers) \<and> alloc_ok (advanceClock_at 0 1010 two_timers)
   \<and> fst ((0, 10) :: bid) < length (wheels (advanceClock_at 0 1010 two_timers))
   \<and> (\<exists>s4. Flush (addOrRun 0) (0, 10) (advanceClock_at 0 1010 two_timers) = Some (Inr s4)
          \<and> linked s4)"
proof -
  let ?adv = "advanceClock_at 0 1010 two_timers"
  have g: "getBucket two_timers 0 = Some (0, 10)"
    by (simp add: getBucket_def two_timers_fields)
  have "\<forall>t b. getBucket two_timers t = Some b \<longleftrightarrow> t \<in> snd ` set (timers (bucket_heap two_timers b))"
    by (rule back_reference_invariant [where s = two_timers, THEN conjunct1, THEN mp])
      (rule two_timers_ok)
  with g have c1: "0 \<in> snd ` set (timers (bucket_heap two_timers (0, 10)))" by blast
  have q: "quo 5000000 1000000 = 5" by (simp add: quo_def signed_divide_int_def)
  have tr: "truncate 1000 5 = 1000"
    by (simp add: truncate_def rem_def signed_modulo_int_def word_sle_eq)
  have n: "New 5000000 12 1000 = Inr (init_state\<lparr>wheels := [w5]\<rparr>)"
    by (simp add: New_eq q tr w5_def word_sless_alt makeslice_panics_def ptrSize_def
        maxAlloc_def)
  have "linked (init_state\<lparr>wheels := [w5]\<rparr>) \<and> alloc_ok (init_state\<lparr>wheels := [w5]\<rparr>)"
    by (rule back_reference_invariant [THEN conjunct2, THEN conjunct1, THEN mp]) (rule n)
  then have c2: "linked (init_state\<lparr>wheels := [w5]\<rparr>)" by simp
  have u: "getBucket (ex_state 1012) 0 = None" by (simp add: ex_state_simps)
  obtain s1 where ad: "Add (0, 10) 0 (ex_state 1012) = Inr s1"
    by (simp add: Add_eq ex_state_simps newBucket_def)
  have "linked s1 \<and> getBucket s1 0 = Some (0, 10)
      \<and> 0 \<in> snd ` set (timers (bucket_heap s1 (0, 10)))"
    by (rule back_reference_invariant [where s = "ex_state 1012", THEN conjunct2, THEN conjunct2,
          THEN conjunct1, THEN mp])
      (intro conjI ex_state_ok(1) u ad)
  then have c3: "linked s1 \<and> getBucket s1 0 = Some (0, 10)" by simp
  obtain s2 where rm: "remove_timer (0, 10) 0 two_timers = Inr (True, s2)"
    by (simp add: remove_timer_eq getBucket_def two_timers_fields)
  have "linked s2 \<and> (True \<longleftrightarrow> getBucket two_timers 0 = Some (0, 10))
      \<and> (True \<longrightarrow> getBucket s2 0 = None \<and> 0 \<notin> snd ` set (timers (bucket_heap s2 (0, 10))))"
    by (rule back_reference_invariant [where s = two_timers, THEN conjunct2, THEN conjunct2,
          THEN conjunct2, THEN conjunct1, THEN mp])
      (intro conjI two_timers_ok(1) rm)
  then have c4: "linked s2 \<and> getBucket s2 0 = None" by simp
  obtain r s3 where st: "Stop 1 two_timers = Inr (r, s3)"
    by (simp add: Stop_eq remove_timer_eq getBucket_def two_timers_fields)
  have "linked s3 \<and> getBucket s3 1 = None"
    by (rule back_reference_invariant [where s = two_timers and r' = r, THEN conjunct2,
          THEN conjunct2, THEN conjunct2, THEN conjunct2, THEN conjunct1, THEN mp])
      (intro conjI two_timers_ok(1) st)
  then have c5: "linked s3" by simp
  have c6: "callback_ok (addOrRun 0) (0, 10)"
    by (rule back_reference_invariant [THEN conjunct2, THEN conjunct2, THEN conjunct2,
          THEN conjunct2, THEN conjunct2, THEN conjunct2])
  have al: "fst ((0, 10) :: bid) < length (wheels ?adv)" by (simp add: advanced_fields)
  from dispatch_two_timers obtain s4 where
    fl: "Flush (addOrRun 0) (0, 10) ?adv = Some (Inr s4)"
    by (cases "dispatch (0, 10) two_timers")
      (auto simp: dispatch_def two_timers_fields map_sum_def split: sum.splits)
  have "linked s4 \<and> alloc_ok s4 \<and> timers (bucket_heap s4 (0, 10)) = []"
    by (rule back_reference_invariant [where s = ?adv and f = "addOrRun 0", THEN conjunct2,
          THEN conjunct2, THEN conjunct2, THEN conjunct2, THEN conjunct2, THEN conjunct1, THEN mp])
      (intro conjI advanced_ok al c6 fl)
  then have c7: "linked s4" by simp
  have e1: "\<exists>s1. Add (0, 10) 0 (ex_state 1012) = Inr s1 \<and> linked s1 \<and> getBucket s1 0 = Some (0, 10)"
    using ad c3 by blast
  have e2: "\<exists>s2. remove_timer (0, 10) 0 two_timers = Inr (True, s2) \<and> linked s2
          \<and> getBucket s2 0 = None"
    using rm c4 by blast
  have e3: "\<exists>r s3. Stop 1 two_timers = Inr (r, s3) \<and> linked s3"
    using st c5 by blast
  have e4: "\<exists>s4. Flush (addOrRun 0) (0, 10) ?adv = Some (Inr s4) \<and> linked s4"
    using fl c7 by blast
  show ?thesis
    using two_timers_ok(1) g c1 n c2 ex_state_ok(1) u e1 e2 e3 c6 advanced_ok al e4
    by (intro conjI)
qed

section \<open>The invariants and the clock\<close>

lemma advanceClock_hd:
  "advanceClock (tw # ov) e \<noteq> []"
  "tick (hd (advanceClock (tw # ov) e)) = tick tw"
  "wheelSize (hd (advanceClock (tw # ov) e)) = wheelSize tw"
  "interval (hd (advanceClock (tw # ov) e)) = interval tw"
  "buckets (hd (advanceClock (tw # ov) e)) = buckets tw"
  by (simp_all add: Let_def)

lemma advanceClock_hd_time:
  assumes "level_ok tw" and "sint (currentTime tw) \<le> sint e"
  shows "sint (currentTime (hd (advanceClock (tw # ov) e))) \<le> sint e"
proof (cases "currentTime tw + tick tw \<le>s e")
  case True
  from assms(1) have t: "0 < sint (tick tw)" and c: "0 \<le> sint (currentTime tw)"
    by (simp_all add: level_ok_def)
  with assms(2) have "0 \<le> sint e" by linarith
  with truncate_le [OF t this] True show ?thesis by (simp add: Let_def)
next
  case False
  with assms(2) show ?thesis by simp
qed

lemma advanceClock_chain_ok:
  assumes "chain_ok ws" and "\<forall>tw \<in> set ws. sint e + sint (interval tw) < 2 ^ 63"
  shows "chain_ok (advanceClock ws e)"
  using assms
proof (induction ws arbitrary: e)
  case Nil
  then show ?case by simp
next
  case (Cons tw ov)
  have ok: "level_ok tw" using Cons.prems(1) by (rule chain_ok_hd)
  then have t: "0 < sint (tick tw)" and c: "0 \<le> sint (currentTime tw)"
    by (simp_all add: level_ok_def)
  show ?case
  proof (cases "currentTime tw + tick tw \<le>s e")
    case False
    with Cons.prems(1) show ?thesis by simp
  next
    case True
    then have ce: "sint (currentTime tw) + sint (tick tw) \<le> sint e"
      by (simp add: word_sle_eq level_ok_sums [OF ok])
    with t c have e0: "0 \<le> sint e" by linarith
    let ?c = "truncate e (tick tw)"
    note tr = truncate_le [OF t e0]
    have c_gt: "sint (currentTime tw) \<le> sint ?c"
      using sint_truncate_pos [OF e0 t] pos_mod_bound [OF t, of "sint e"] ce by linarith
    have ok': "level_ok (tw\<lparr>currentTime := ?c\<rparr>)"
      using ok tr Cons.prems(2) by (simp add: level_ok_def)
    have eq: "advanceClock (tw # ov) e = tw\<lparr>currentTime := ?c\<rparr> # advanceClock ov ?c"
      using True by (simp add: Let_def)
    show ?thesis
    proof (cases ov)
      case Nil
      with eq ok' show ?thesis by simp
    next
      case (Cons ow rest)
      with Cons.prems(1) have link: "tick ow = interval tw" "wheelSize ow = wheelSize tw"
        "currentTime ow \<le>s currentTime tw" and rest: "chain_ok ov"
        by simp_all
      have okw: "level_ok ow" using rest Cons by (simp add: chain_ok_hd)
      have "\<forall>tw \<in> set ov. sint ?c + sint (interval tw) < 2 ^ 63"
        using Cons.prems(2) tr by fastforce
      with rest have ch: "chain_ok (advanceClock ov ?c)" by (rule Cons.IH)
      have "sint (currentTime ow) \<le> sint ?c"
        using link(3) c_gt by (simp add: word_sle_eq)
      then have "sint (currentTime (hd (advanceClock (ow # rest) ?c))) \<le> sint ?c"
        by (rule advanceClock_hd_time [OF okw])
      then have "currentTime (hd (advanceClock ov ?c)) \<le>s ?c"
        using Cons by (simp add: word_sle_eq)
      moreover have "advanceClock ov ?c \<noteq> []" "tick (hd (advanceClock ov ?c)) = interval tw"
        "wheelSize (hd (advanceClock ov ?c)) = wheelSize tw"
        using Cons link by (simp_all add: advanceClock_hd del: advanceClock.simps)
      ultimately show ?thesis
        unfolding eq using ok' ch by (intro chain_ok_Cons) simp_all
    qed
  qed
qed

lemma advanceClock_buckets:
  "map buckets (advanceClock ws e) = map buckets ws"
  by (induction ws arbitrary: e) (simp_all add: Let_def)

lemma advanceClock_at_ok:
  assumes "linked s" and "alloc_ok s"
  shows "linked (advanceClock_at 0 e s)" "alloc_ok (advanceClock_at 0 e s)"
proof -
  show "linked (advanceClock_at 0 e s)"
    using assms(1) by (rule linked_bucket_fields) (simp_all add: advanceClock_at_def)
  have "\<Union> (set ` set (map buckets (advanceClock (wheels s) e)))
      = \<Union> (set ` set (map buckets (wheels s)))"
    by (simp only: advanceClock_buckets)
  then show "alloc_ok (advanceClock_at 0 e s)"
    using assms(2) unfolding alloc_ok_def advanceClock_at_def by simp blast
qed

end
